theory Spec2Isabelle
  imports Main "HOL-Library.Multiset"
begin

section \<open>Data model (types.ts)\<close>

text \<open>
  The interface \<open>Ayah\<close>.  Every TypeScript \<open>number\<close> field holds an integer of the
  data set and is an \<open>int\<close> here; \<open>===\<close> on numbers and on strings is equality.
\<close>

record Ayah =
  verse_key :: string
  surah :: int
  ayah :: int
  text_indopak :: string
  page_13line :: int
  line_numbers :: "int list"
  global_order :: int
  juz_number :: int
  ruku_global :: int
  ruku_in_juz :: int
  is_ruku_start :: bool
  is_page_start :: bool
  is_page_end :: bool

text \<open>
  The tagged union \<open>TestPoolRange = AyahRange | RukuRange | JuzRange\<close>; the tag
  \<open>type\<close> is the constructor.  \<open>AyahRange\<close> carries start surah, start ayah, end surah,
  end ayah; \<open>RukuRange\<close> carries start juz, start ruku, end juz, end ruku; \<open>JuzRange\<close>
  carries start and end.
\<close>

datatype TestPoolRange =
  AyahRange int int int int
| RukuRange int int int int
| JuzRange int int

datatype Direction = Forward | Backward

section \<open>JavaScript primitives used by engine.ts\<close>

text \<open>\<open>xs[i]\<close>: the element, or \<open>undefined\<close> (here \<open>None\<close>) outside the array.\<close>

definition at_index :: "'a list \<Rightarrow> int \<Rightarrow> 'a option" where
  "at_index xs i = (if 0 \<le> i \<and> i < int (length xs) then Some (xs ! nat i) else None)"

text \<open>Decimal rendering of an integer, as a template literal renders a number.\<close>

fun string_of_nat :: "nat \<Rightarrow> string" where
  "string_of_nat n =
     (if n < 10 then [char_of (48 + n)]
      else string_of_nat (n div 10) @ [char_of (48 + n mod 10)])"

declare string_of_nat.simps [simp del]

definition number_to_string :: "int \<Rightarrow> string" where
  "number_to_string i =
     (if i < 0 then ''-'' @ string_of_nat (nat (- i)) else string_of_nat (nat i))"

text \<open>
  A \<open>Map<string, Ayah>\<close> keeps its entries in insertion order: \<open>set\<close> on a key that is
  present replaces the value where the entry stands, \<open>set\<close> on a new key appends an
  entry, and \<open>values()\<close> lists the values in entry order.
\<close>

type_synonym poolMap = "(string \<times> Ayah) list"

fun map_set :: "poolMap \<Rightarrow> string \<Rightarrow> Ayah \<Rightarrow> poolMap" where
  "map_set [] k v = [(k, v)]"
| "map_set (p # ps) k v = (if fst p = k then (k, v) # ps else p # map_set ps k v)"

definition map_values :: "poolMap \<Rightarrow> Ayah list" where
  "map_values m = map snd m"

text \<open>
  \<open>.sort((a, b) => a.global_order - b.global_order)\<close>: \<open>Array.prototype.sort\<close> is a
  stable sort, and the comparator orders by \<open>global_order\<close>; \<open>sort_key\<close> is the stable
  insertion sort of the list library.
\<close>

definition sort_by_global_order :: "Ayah list \<Rightarrow> Ayah list" where
  "sort_by_global_order xs = sort_key global_order xs"

section \<open>Range resolvers (engine.ts)\<close>

definition get_ayahs_between_verse_keys :: "Ayah list \<Rightarrow> string \<Rightarrow> string \<Rightarrow> Ayah list" where
  "get_ayahs_between_verse_keys ayahs startKey endKey =
     (case List.find (\<lambda>a. verse_key a = startKey) ayahs of
        None \<Rightarrow> []
      | Some startAyah \<Rightarrow>
          (case List.find (\<lambda>a. verse_key a = endKey) ayahs of
             None \<Rightarrow> []
           | Some endAyah \<Rightarrow>
               if global_order startAyah > global_order endAyah then []
               else filter (\<lambda>a. global_order a \<ge> global_order startAyah
                               \<and> global_order a \<le> global_order endAyah) ayahs))"

definition get_ayahs_for_ruku :: "Ayah list \<Rightarrow> int \<Rightarrow> int \<Rightarrow> Ayah list" where
  "get_ayahs_for_ruku ayahs juz r =
     filter (\<lambda>a. juz_number a = juz \<and> ruku_in_juz a = r) ayahs"

definition get_ayahs_between_rukus ::
  "Ayah list \<Rightarrow> int \<Rightarrow> int \<Rightarrow> int \<Rightarrow> int \<Rightarrow> Ayah list" where
  "get_ayahs_between_rukus ayahs startJuz startRuku endJuz endRuku =
     (let startRukuAyahs = get_ayahs_for_ruku ayahs startJuz startRuku;
          endRukuAyahs = get_ayahs_for_ruku ayahs endJuz endRuku
      in if length startRukuAyahs = 0 \<or> length endRukuAyahs = 0 then []
         else
           (let startOrder = global_order (startRukuAyahs ! 0);
                endOrder = global_order (endRukuAyahs ! (length endRukuAyahs - 1))
            in if startOrder > endOrder then []
               else filter (\<lambda>a. global_order a \<ge> startOrder \<and> global_order a \<le> endOrder)
                      ayahs))"

definition get_ayahs_for_juz_range :: "Ayah list \<Rightarrow> int \<Rightarrow> int \<Rightarrow> Ayah list" where
  "get_ayahs_for_juz_range ayahs startJuz endJuz =
     (if startJuz > endJuz then []
      else filter (\<lambda>a. juz_number a \<ge> startJuz \<and> juz_number a \<le> endJuz) ayahs)"

section \<open>Pool builder (engine.ts)\<close>

text \<open>The body of the outer \<open>forEach\<close> up to the inner one: the verses of one range.\<close>

fun rangeAyahs :: "Ayah list \<Rightarrow> TestPoolRange \<Rightarrow> Ayah list" where
  "rangeAyahs ayahs (AyahRange ss sa es ea) =
     get_ayahs_between_verse_keys ayahs
       (number_to_string ss @ '':'' @ number_to_string sa)
       (number_to_string es @ '':'' @ number_to_string ea)"
| "rangeAyahs ayahs (RukuRange sj sr ej er) = get_ayahs_between_rukus ayahs sj sr ej er"
| "rangeAyahs ayahs (JuzRange s e) = get_ayahs_for_juz_range ayahs s e"

text \<open>\<open>rangeAyahs.forEach(a => poolMap.set(a.verse_key, a))\<close>\<close>

fun set_all :: "poolMap \<Rightarrow> Ayah list \<Rightarrow> poolMap" where
  "set_all m [] = m"
| "set_all m (a # as) = set_all (map_set m (verse_key a) a) as"

text \<open>\<open>ranges.forEach(range => ...)\<close>, from a given state of \<open>poolMap\<close>.\<close>

fun add_ranges :: "Ayah list \<Rightarrow> poolMap \<Rightarrow> TestPoolRange list \<Rightarrow> poolMap" where
  "add_ranges ayahs m [] = m"
| "add_ranges ayahs m (r # rs) = add_ranges ayahs (set_all m (rangeAyahs ayahs r)) rs"

definition buildTestPool :: "Ayah list \<Rightarrow> TestPoolRange list \<Rightarrow> Ayah list" where
  "buildTestPool ayahs ranges = sort_by_global_order (map_values (add_ranges ayahs [] ranges))"

section \<open>Navigation queries (engine.ts)\<close>

definition getNextAyah :: "Ayah list \<Rightarrow> Ayah \<Rightarrow> Ayah option" where
  "getNextAyah ayahs current =
     List.find (\<lambda>a. global_order a = global_order current + 1) ayahs"

definition getPrevAyah :: "Ayah list \<Rightarrow> Ayah \<Rightarrow> Ayah option" where
  "getPrevAyah ayahs current =
     List.find (\<lambda>a. global_order a = global_order current - 1) ayahs"

definition getFirstAyahOfRuku :: "Ayah list \<Rightarrow> int \<Rightarrow> Ayah option" where
  "getFirstAyahOfRuku ayahs rukuGlobal =
     List.find (\<lambda>a. ruku_global a = rukuGlobal \<and> is_ruku_start a) ayahs"

definition getLastAyahOfRuku :: "Ayah list \<Rightarrow> int \<Rightarrow> Ayah option" where
  "getLastAyahOfRuku ayahs rukuGlobal =
     (case List.find (\<lambda>a. ruku_global a = rukuGlobal + 1 \<and> is_ruku_start a) ayahs of
        Some nextRukuStart \<Rightarrow> getPrevAyah ayahs nextRukuStart
      | None \<Rightarrow>
          (let rukuAyahs = filter (\<lambda>a. ruku_global a = rukuGlobal) ayahs
           in at_index rukuAyahs (int (length rukuAyahs) - 1)))"

text \<open>
  The declared result type is \<open>Ayah\<close>, but \<open>ayahs[ayahs.length - 1]\<close> and \<open>ayahs[0]\<close> are
  \<open>undefined\<close> on an empty array, so the result is an option here.
\<close>

fun getNearestRukuBoundary :: "Ayah list \<Rightarrow> Ayah \<Rightarrow> Direction \<Rightarrow> Ayah option" where
  "getNearestRukuBoundary ayahs current Forward =
     (case List.find (\<lambda>a. global_order a > global_order current \<and> is_ruku_start a) ayahs of
        Some nextRuku \<Rightarrow>
          (case getPrevAyah ayahs nextRuku of
             Some p \<Rightarrow> Some p
           | None \<Rightarrow> Some current)
      | None \<Rightarrow> at_index ayahs (int (length ayahs) - 1))"
| "getNearestRukuBoundary ayahs current Backward =
     (case List.find (\<lambda>a. global_order a < global_order current \<and> is_ruku_start a) (rev ayahs) of
        Some prevRuku \<Rightarrow> Some prevRuku
      | None \<Rightarrow> at_index ayahs 0)"

section \<open>Example indexes\<close>

text \<open>
  A verse record from the fields that matter here: key, surah, ayah, page, global order, juz,
  global ruku, ruku in juz, and the three flags.
\<close>

definition example_verse ::
  "string \<Rightarrow> int \<Rightarrow> int \<Rightarrow> int \<Rightarrow> int \<Rightarrow> int \<Rightarrow> int \<Rightarrow> int \<Rightarrow> bool \<Rightarrow> bool \<Rightarrow> bool \<Rightarrow> Ayah" where
  "example_verse k s a pg ord juz rg rj rs ps pe =
     \<lparr>verse_key = k, surah = s, ayah = a,
      text_indopak = [], page_13line = pg, line_numbers = [], global_order = ord,
      juz_number = juz, ruku_global = rg, ruku_in_juz = rj, is_ruku_start = rs,
      is_page_start = ps, is_page_end = pe\<rparr>"

text \<open>
  Ten verses with orders 1 to 10: rukus start at orders 1, 4 and 8, juz 2 starts at order 8,
  page 2 at order 6.
\<close>

definition ten_verses :: "Ayah list" where
  "ten_verses =
     [example_verse ''1:1'' 1 1 1 1 1 1 1 True True False,
      example_verse ''1:2'' 1 2 1 2 1 1 1 False False False,
      example_verse ''1:3'' 1 3 1 3 1 1 1 False False False,
      example_verse ''1:4'' 1 4 1 4 1 2 2 True False False,
      example_verse ''1:5'' 1 5 1 5 1 2 2 False False True,
      example_verse ''1:6'' 1 6 2 6 1 2 2 False True False,
      example_verse ''1:7'' 1 7 2 7 1 2 2 False False False,
      example_verse ''2:1'' 2 1 2 8 2 3 1 True False False,
      example_verse ''2:2'' 2 2 2 9 2 3 1 False False False,
      example_verse ''2:3'' 2 3 2 10 2 3 1 False False True]"

text \<open>
  Four verses whose orders 1, 2, 4, 6 are strictly increasing but not consecutive; the last
  one starts ruku 2.
\<close>

definition gapped_verses :: "Ayah list" where
  "gapped_verses =
     [example_verse ''1:1'' 1 1 1 1 1 1 1 True True False,
      example_verse ''1:2'' 1 2 1 2 1 1 1 False False False,
      example_verse ''1:3'' 1 3 1 4 1 1 1 False False False,
      example_verse ''1:4'' 1 4 1 6 1 2 2 True False True]"

text \<open>
  Two lists of records that are not verse indexes: in the first both records carry the key
  1:1, in the second two records share the order 1.
\<close>

definition clashing_verses :: "Ayah list" where
  "clashing_verses =
     [example_verse ''1:1'' 1 1 1 1 1 1 1 True True False,
      example_verse ''1:1'' 1 1 1 2 2 2 1 True False True]"

definition tied_verses :: "Ayah list" where
  "tied_verses =
     [example_verse ''1:1'' 1 1 1 1 1 1 1 True True False,
      example_verse ''1:2'' 1 2 1 1 1 1 1 False False True]"

section \<open>Invariant of the pool map\<close>

text \<open>
  Used in the proofs only: every entry of the pool map is a verse of the index, stored under
  its own key.
\<close>

definition keyed :: "Ayah list \<Rightarrow> poolMap \<Rightarrow> bool" where
  "keyed ayahs m \<longleftrightarrow> (\<forall>(k, v) \<in> set m. k = verse_key v \<and> v \<in> set ayahs)"

section \<open>Lemmas\<close>

subsection \<open>The model on small inputs\<close>

lemma number_to_string_examples:
  "number_to_string 0 = ''0''" "number_to_string 7 = ''7''" "number_to_string 114 = ''114''"
  "number_to_string (- 5) = ''-5''"
  by code_simp+

text \<open>
  The verse span 1:1 to 1:7 lies within juz 1: added to the juz span 1 to 1 it leaves the
  pool of the juz span unchanged.
\<close>

lemma pool_example_overlap:
  "buildTestPool ten_verses [AyahRange 1 1 1 7, JuzRange 1 1]
     = buildTestPool ten_verses [JuzRange 1 1] \<and>
   map verse_key (buildTestPool ten_verses [AyahRange 1 1 1 7, JuzRange 1 1])
     = [''1:1'', ''1:2'', ''1:3'', ''1:4'', ''1:5'', ''1:6'', ''1:7'']"
  by code_simp

subsection \<open>Resolvers select from the index\<close>

lemma between_verse_keys_subset: "set (get_ayahs_between_verse_keys ayahs sk ek) \<subseteq> set ayahs"
  by (auto simp: get_ayahs_between_verse_keys_def split: option.splits)

lemma between_rukus_subset: "set (get_ayahs_between_rukus ayahs sj sr ej er) \<subseteq> set ayahs"
  by (auto simp: get_ayahs_between_rukus_def Let_def)

lemma juz_range_subset: "set (get_ayahs_for_juz_range ayahs s e) \<subseteq> set ayahs"
  by (auto simp: get_ayahs_for_juz_range_def)

lemma rangeAyahs_subset: "set (rangeAyahs ayahs r) \<subseteq> set ayahs"
  by (cases r) (simp_all add: between_verse_keys_subset between_rukus_subset juz_range_subset)

subsection \<open>The insertion-ordered map\<close>

lemma map_of_map_set: "map_of (map_set m k v) = (map_of m)(k \<mapsto> v)"
  by (induction m) (auto simp: fun_eq_iff)

lemma keys_map_set:
  "map fst (map_set m k v) = (if k \<in> set (map fst m) then map fst m else map fst m @ [k])"
  by (induction m) auto

lemma distinct_keys_map_set: "distinct (map fst m) \<Longrightarrow> distinct (map fst (map_set m k v))"
  by (simp add: keys_map_set)

lemma entries_map_set: "set (map_set m k v) \<subseteq> insert (k, v) (set m)"
  by (induction m) auto

lemma entry_in_map_set: "(k, v) \<in> set (map_set m k v)"
  by (induction m) auto

lemma other_entries_map_set: "(k', v') \<in> set m \<Longrightarrow> k' \<noteq> k \<Longrightarrow> (k', v') \<in> set (map_set m k v)"
  by (induction m) auto

lemma keyed_map_set: "keyed ayahs m \<Longrightarrow> a \<in> set ayahs \<Longrightarrow> keyed ayahs (map_set m (verse_key a) a)"
  using entries_map_set[of m "verse_key a" a] by (auto simp: keyed_def)

lemma keyed_set_all: "keyed ayahs m \<Longrightarrow> set as \<subseteq> set ayahs \<Longrightarrow> keyed ayahs (set_all m as)"
  by (induction as arbitrary: m) (auto simp: keyed_map_set)

lemma distinct_keys_set_all: "distinct (map fst m) \<Longrightarrow> distinct (map fst (set_all m as))"
  by (induction as arbitrary: m) (auto simp: distinct_keys_map_set)

lemma keyed_add_ranges: "keyed ayahs m \<Longrightarrow> keyed ayahs (add_ranges ayahs m rs)"
  by (induction rs arbitrary: m) (auto simp: keyed_set_all rangeAyahs_subset)

lemma distinct_keys_add_ranges:
  "distinct (map fst m) \<Longrightarrow> distinct (map fst (add_ranges ayahs m rs))"
  by (induction rs arbitrary: m) (auto simp: distinct_keys_set_all)

lemma keyed_keys: "keyed ayahs m \<Longrightarrow> map verse_key (map_values m) = map fst m"
  by (induction m) (auto simp: keyed_def map_values_def)

lemma keyed_values: "keyed ayahs m \<Longrightarrow> set (map_values m) \<subseteq> set ayahs"
  by (auto simp: keyed_def map_values_def)

lemma pool_keyed: "keyed ayahs (add_ranges ayahs [] rs)"
  by (rule keyed_add_ranges) (simp add: keyed_def)

lemma pool_distinct_keys: "distinct (map fst (add_ranges ayahs [] rs))"
  by (rule distinct_keys_add_ranges) simp

lemma pool_values_distinct_keys: "distinct (map verse_key (map_values (add_ranges ayahs [] rs)))"
  by (simp add: keyed_keys[OF pool_keyed] pool_distinct_keys)

lemma buildTestPool_subset: "set (buildTestPool ayahs rs) \<subseteq> set ayahs"
  using keyed_values[OF pool_keyed] by (simp add: buildTestPool_def sort_by_global_order_def)

lemma buildTestPool_distinct_keys: "distinct (map verse_key (buildTestPool ayahs rs))"
proof -
  have "mset (map verse_key (buildTestPool ayahs rs))
      = mset (map verse_key (map_values (add_ranges ayahs [] rs)))"
    by (simp add: buildTestPool_def sort_by_global_order_def)
  then show ?thesis
    using pool_values_distinct_keys mset_eq_imp_distinct_iff by blast
qed

lemma buildTestPool_sorted: "sorted (map global_order (buildTestPool ayahs rs))"
  by (simp add: buildTestPool_def sort_by_global_order_def)

lemma buildTestPool_strict:
  assumes "distinct (map global_order ayahs)"
  shows "sorted_wrt (<) (map global_order (buildTestPool ayahs rs))"
proof -
  have "distinct (buildTestPool ayahs rs)"
    using buildTestPool_distinct_keys distinct_map by blast
  moreover have "inj_on global_order (set (buildTestPool ayahs rs))"
    using assms buildTestPool_subset by (meson distinct_map inj_on_subset)
  ultimately have "distinct (map global_order (buildTestPool ayahs rs))"
    by (simp add: distinct_map)
  then show ?thesis
    by (simp add: strict_sorted_iff buildTestPool_sorted)
qed

lemma buildTestPool_Nil: "buildTestPool ayahs [] = []"
  by (simp add: buildTestPool_def sort_by_global_order_def map_values_def)

lemma values_map_set:
  assumes "keyed ayahs m" "a \<in> set ayahs" "inj_on verse_key (set ayahs)"
  shows "set (map_values (map_set m (verse_key a) a)) = insert a (set (map_values m))"
proof
  show "set (map_values (map_set m (verse_key a) a)) \<subseteq> insert a (set (map_values m))"
    using entries_map_set[of m "verse_key a" a] by (auto simp: map_values_def)
next
  show "insert a (set (map_values m)) \<subseteq> set (map_values (map_set m (verse_key a) a))"
  proof
    fix v assume "v \<in> insert a (set (map_values m))"
    then consider "v = a" | k where "(k, v) \<in> set m"
      by (auto simp: map_values_def)
    then show "v \<in> set (map_values (map_set m (verse_key a) a))"
    proof cases
      case 1
      then show ?thesis
        using entry_in_map_set[of "verse_key a" a m] by (force simp: map_values_def)
    next
      case 2
      show ?thesis
      proof (cases "k = verse_key a")
        case True
        from 2 assms(1) have "k = verse_key v" "v \<in> set ayahs"
          by (auto simp: keyed_def)
        with True assms(2,3) have "v = a"
          by (auto dest: inj_onD)
        then show ?thesis
          using entry_in_map_set[of "verse_key a" a m] by (force simp: map_values_def)
      next
        case False
        with 2 have "(k, v) \<in> set (map_set m (verse_key a) a)"
          by (rule other_entries_map_set)
        then show ?thesis by (force simp: map_values_def)
      qed
    qed
  qed
qed

lemma values_set_all:
  "keyed ayahs m \<Longrightarrow> set as \<subseteq> set ayahs \<Longrightarrow> inj_on verse_key (set ayahs) \<Longrightarrow>
   set (map_values (set_all m as)) = set (map_values m) \<union> set as"
proof (induction as arbitrary: m)
  case Nil
  then show ?case by simp
next
  case (Cons a as)
  then have "keyed ayahs (map_set m (verse_key a) a)"
    by (simp add: keyed_map_set)
  with Cons show ?case
    by (simp add: values_map_set)
qed

lemma values_add_ranges:
  "keyed ayahs m \<Longrightarrow> inj_on verse_key (set ayahs) \<Longrightarrow>
   set (map_values (add_ranges ayahs m rs))
     = set (map_values m) \<union> (\<Union>r \<in> set rs. set (rangeAyahs ayahs r))"
proof (induction rs arbitrary: m)
  case Nil
  then show ?case by simp
next
  case (Cons r rs)
  have k: "keyed ayahs (set_all m (rangeAyahs ayahs r))"
    using Cons.prems(1) by (simp add: keyed_set_all rangeAyahs_subset)
  show ?case
    using Cons.IH[OF k Cons.prems(2)] Cons.prems
    by (auto simp: values_set_all rangeAyahs_subset)
qed

lemma set_buildTestPool:
  assumes "distinct (map verse_key ayahs)"
  shows "set (buildTestPool ayahs rs) = (\<Union>r \<in> set rs. set (rangeAyahs ayahs r))"
proof -
  have "inj_on verse_key (set ayahs)"
    using assms by (simp add: distinct_map)
  moreover have "keyed ayahs []"
    by (simp add: keyed_def)
  ultimately show ?thesis
    using values_add_ranges[of ayahs "[]" rs]
    by (simp add: buildTestPool_def sort_by_global_order_def map_values_def)
qed

text \<open>A list strictly ascending under a key is determined by its elements.\<close>

lemma strict_key_sorted_unique:
  assumes "sorted_wrt (<) (map (f :: 'a \<Rightarrow> int) xs)" "sorted_wrt (<) (map f ys)" "set xs = set ys"
  shows "xs = ys"
proof -
  have "map f xs = map f ys"
    using assms by (intro sorted_distinct_set_unique) (auto simp: strict_sorted_iff)
  moreover have "inj_on f (set xs \<union> set ys)"
    using assms by (simp add: strict_sorted_iff distinct_map)
  ultimately show ?thesis
    by (simp add: inj_on_map_eq_map)
qed

lemma buildTestPool_set_determined:
  assumes "distinct (map verse_key ayahs)" "distinct (map global_order ayahs)"
    and "set rs = set rs'"
  shows "buildTestPool ayahs rs = buildTestPool ayahs rs'"
  using assms by (intro strict_key_sorted_unique[of global_order])
    (simp_all add: buildTestPool_strict set_buildTestPool)

subsection \<open>Writing the same verses twice\<close>

lemma set_all_append: "set_all m (xs @ ys) = set_all (set_all m xs) ys"
  by (induction xs arbitrary: m) auto

lemma add_ranges_concat:
  "add_ranges ayahs m rs = set_all m (concat (map (rangeAyahs ayahs) rs))"
  by (induction rs arbitrary: m) (auto simp: set_all_append)

lemma keys_set_all_present:
  "verse_key ` set as \<subseteq> set (map fst m) \<Longrightarrow> map fst (set_all m as) = map fst m"
proof (induction as arbitrary: m)
  case Nil
  then show ?case by simp
next
  case (Cons a as)
  then have "map fst (map_set m (verse_key a) a) = map fst m"
    by (simp add: keys_map_set)
  with Cons.IH[of "map_set m (verse_key a) a"] Cons.prems show ?case
    by simp
qed

lemma keys_set_all_contains: "verse_key ` set as \<union> set (map fst m) \<subseteq> set (map fst (set_all m as))"
proof (induction as arbitrary: m)
  case Nil
  then show ?case by simp
next
  case (Cons a as)
  have "set (map fst (map_set m (verse_key a) a)) = insert (verse_key a) (set (map fst m))"
    by (auto simp: keys_map_set)
  with Cons[of "map_set m (verse_key a) a"] show ?case by auto
qed

lemma map_of_set_all:
  "map_of (set_all m as) = map_of m ++ map_of (rev (map (\<lambda>a. (verse_key a, a)) as))"
  by (induction as arbitrary: m) (auto simp: map_of_map_set fun_eq_iff map_add_def split: option.splits)

lemma alist_eqI:
  "map fst xs = map fst ys \<Longrightarrow> distinct (map fst xs) \<Longrightarrow> map_of xs = map_of ys \<Longrightarrow> xs = ys"
proof (induction xs arbitrary: ys)
  case Nil
  then show ?case by simp
next
  case (Cons x xs)
  then obtain y ys' where ys: "ys = y # ys'"
    by (cases ys) auto
  with Cons.prems have k: "fst x = fst y" "map fst xs = map fst ys'"
    by auto
  have "map_of (x # xs) (fst x) = map_of ys (fst x)"
    by (rule fun_cong[OF Cons.prems(3)])
  then have "Some (snd x) = Some (snd y)"
    using ys k(1) by (cases x; cases y) simp
  with k(1) have xy: "x = y"
    by (simp add: prod_eq_iff)
  have "map_of xs = map_of ys'"
  proof
    fix k'
    show "map_of xs k' = map_of ys' k'"
    proof (cases "k' = fst x")
      case True
      with Cons.prems(2) k have "k' \<notin> set (map fst xs)" "k' \<notin> set (map fst ys')"
        by auto
      then show ?thesis
        by (metis map_of_eq_None_iff set_map)
    next
      case False
      with fun_cong[OF Cons.prems(3), of k'] ys xy show ?thesis
        by (cases y) auto
    qed
  qed
  with Cons.IH[of ys'] k Cons.prems(2) xy ys show ?case by simp
qed

lemma set_all_twice: "set_all (set_all [] as) as = set_all [] as"
proof (rule alist_eqI)
  show "map fst (set_all (set_all [] as) as) = map fst (set_all [] as)"
    using keys_set_all_contains[of as "[]"] by (intro keys_set_all_present) auto
  then show "distinct (map fst (set_all (set_all [] as) as))"
    by (simp add: distinct_keys_set_all)
  show "map_of (set_all (set_all [] as) as) = map_of (set_all [] as)"
    by (simp add: map_of_set_all[of "set_all [] as"] map_of_set_all[of "[]"] map_add_def fun_eq_iff
        split: option.splits)
qed

lemma buildTestPool_twice: "buildTestPool ayahs (rs @ rs) = buildTestPool ayahs rs"
  by (simp add: buildTestPool_def add_ranges_concat set_all_append set_all_twice)

subsection \<open>Searching an index that ascends in \<open>global_order\<close>\<close>

lemma find_first_least:
  assumes "sorted (map (f :: 'a \<Rightarrow> int) xs)" "List.find P xs = Some x" "y \<in> set xs" "P y"
  shows "f x \<le> f y"
proof -
  from assms(2) obtain i where i: "i < length xs" "x = xs ! i" "\<forall>j<i. \<not> P (xs ! j)"
    by (auto simp: find_Some_iff)
  from assms(3) obtain j where j: "j < length xs" "y = xs ! j"
    by (auto simp: in_set_conv_nth)
  with i assms(4) have "i \<le> j"
    by (meson not_le)
  with assms(1) i j show ?thesis
    using sorted_nth_mono[of "map f xs" i j] by simp
qed

lemma find_rev_greatest:
  assumes "sorted (map (f :: 'a \<Rightarrow> int) xs)" "List.find P (rev xs) = Some x" "y \<in> set xs" "P y"
  shows "f y \<le> f x"
proof -
  have "sorted (map (\<lambda>a. - f a) (rev xs))"
    using assms(1) by (simp add: sorted_wrt_rev sorted_map rev_map[symmetric] sorted_wrt_map)
  from find_first_least[OF this assms(2)] assms(3,4) show ?thesis
    by force
qed

lemma find_SomeD: "List.find P xs = Some x \<Longrightarrow> x \<in> set xs \<and> P x"
  by (auto simp: find_Some_iff)

lemma find_unique:
  assumes "x \<in> set xs" "P x" "\<forall>y\<in>set xs. P y \<longrightarrow> y = x"
  shows "List.find P xs = Some x"
proof (cases "List.find P xs")
  case None
  then have "\<not> (\<exists>x. x \<in> set xs \<and> P x)"
    by (simp add: find_None_iff)
  with assms(1,2) show ?thesis by blast
next
  case (Some z)
  from find_SomeD[OF Some] assms(3) have "z = x" by blast
  with Some show ?thesis by simp
qed

lemma find_by_order:
  assumes "distinct (map global_order ayahs)" "p \<in> set ayahs" "global_order p = k"
  shows "List.find (\<lambda>a. global_order a = k) ayahs = Some p"
proof (rule find_unique)
  show "\<forall>y\<in>set ayahs. global_order y = k \<longrightarrow> y = p"
    using assms by (auto simp: distinct_map dest: inj_onD)
qed (use assms in auto)

lemma sorted_nth0_least:
  "sorted (map (f :: 'a \<Rightarrow> int) ys) \<Longrightarrow> y \<in> set ys \<Longrightarrow> f (ys ! 0) \<le> f y"
  by (cases ys) auto

lemma sorted_filter_first_least:
  assumes "sorted (map (f :: 'a \<Rightarrow> int) xs)" "y \<in> set (filter P xs)"
  shows "f (filter P xs ! 0) \<le> f y"
  by (rule sorted_nth0_least[OF sorted_filter[OF assms(1)] assms(2)])

lemma sorted_nth_last_greatest:
  assumes "sorted (map (f :: 'a \<Rightarrow> int) ys)" "y \<in> set ys"
  shows "f y \<le> f (ys ! (length ys - 1))"
proof -
  from assms(2) obtain j where j: "j < length ys" "y = ys ! j"
    by (metis in_set_conv_nth)
  then have "j \<le> length ys - 1" "length ys - 1 < length (map f ys)"
    by auto
  from sorted_nth_mono[OF assms(1) this] j show ?thesis
    by (simp del: length_map)
qed

lemma sorted_filter_last_greatest:
  assumes "sorted (map (f :: 'a \<Rightarrow> int) xs)" "y \<in> set (filter P xs)"
  shows "f y \<le> f (filter P xs ! (length (filter P xs) - 1))"
  by (rule sorted_nth_last_greatest[OF sorted_filter[OF assms(1)] assms(2)])

lemma at_index_last: "xs \<noteq> [] \<Longrightarrow> at_index xs (int (length xs) - 1) = Some (last xs)"
  by (cases xs rule: rev_cases) (simp_all add: at_index_def nth_append)

lemma at_index_first: "xs \<noteq> [] \<Longrightarrow> at_index xs 0 = Some (hd xs)"
  by (cases xs) (simp_all add: at_index_def)

lemma sorted_last_greatest:
  assumes "sorted (map (f :: 'a \<Rightarrow> int) xs)" "y \<in> set xs"
  shows "f y \<le> f (last xs)"
proof -
  from assms(2) have "xs \<noteq> []" by auto
  then show ?thesis
    using sorted_nth_last_greatest[OF assms] by (simp add: last_conv_nth)
qed

lemma sorted_first_least:
  assumes "sorted (map (f :: 'a \<Rightarrow> int) xs)" "y \<in> set xs"
  shows "f (hd xs) \<le> f y"
  using assms by (cases xs) auto

lemma ruku_first_order:
  assumes "sorted (map global_order ayahs)"
    and "s \<in> set ayahs" "juz_number s = j" "ruku_in_juz s = r"
    and "\<forall>a\<in>set ayahs. juz_number a = j \<and> ruku_in_juz a = r \<longrightarrow> global_order s \<le> global_order a"
  shows "global_order (get_ayahs_for_ruku ayahs j r ! 0) = global_order s"
proof -
  let ?S = "get_ayahs_for_ruku ayahs j r"
  have s: "s \<in> set ?S"
    using assms(2-4) by (simp add: get_ayahs_for_ruku_def)
  then have "?S ! 0 \<in> set ?S"
    by (cases ?S) auto
  then have "global_order s \<le> global_order (?S ! 0)"
    using assms(5) by (simp add: get_ayahs_for_ruku_def)
  moreover have "global_order (?S ! 0) \<le> global_order s"
    using sorted_filter_first_least[OF assms(1)] s by (simp add: get_ayahs_for_ruku_def)
  ultimately show ?thesis by simp
qed

lemma ruku_last_order:
  assumes "sorted (map global_order ayahs)"
    and "e \<in> set ayahs" "juz_number e = j" "ruku_in_juz e = r"
    and "\<forall>a\<in>set ayahs. juz_number a = j \<and> ruku_in_juz a = r \<longrightarrow> global_order a \<le> global_order e"
  shows "global_order (get_ayahs_for_ruku ayahs j r ! (length (get_ayahs_for_ruku ayahs j r) - 1))
           = global_order e"
proof -
  let ?S = "get_ayahs_for_ruku ayahs j r"
  have e: "e \<in> set ?S"
    using assms(2-4) by (simp add: get_ayahs_for_ruku_def)
  then have "?S \<noteq> []" by auto
  then have "?S ! (length ?S - 1) \<in> set ?S"
    by simp
  then have "global_order (?S ! (length ?S - 1)) \<le> global_order e"
    using assms(5) by (simp add: get_ayahs_for_ruku_def)
  moreover have "global_order e \<le> global_order (?S ! (length ?S - 1))"
    using sorted_filter_last_greatest[OF assms(1)] e by (simp add: get_ayahs_for_ruku_def)
  ultimately show ?thesis by simp
qed

lemma between_rukus_missing:
  assumes "(\<forall>a\<in>set ayahs. \<not> (juz_number a = startJuz \<and> ruku_in_juz a = startRuku)) \<or>
           (\<forall>a\<in>set ayahs. \<not> (juz_number a = endJuz \<and> ruku_in_juz a = endRuku))"
  shows "get_ayahs_between_rukus ayahs startJuz startRuku endJuz endRuku = []"
proof -
  from assms have "get_ayahs_for_ruku ayahs startJuz startRuku = []
      \<or> get_ayahs_for_ruku ayahs endJuz endRuku = []"
    by (auto simp: get_ayahs_for_ruku_def filter_empty_conv)
  then show ?thesis
    by (auto simp: get_ayahs_between_rukus_def Let_def)
qed

lemma between_rukus_present:
  assumes "sorted (map global_order ayahs)"
    and "s \<in> set ayahs" "juz_number s = startJuz" "ruku_in_juz s = startRuku"
    and "\<forall>a\<in>set ayahs. juz_number a = startJuz \<and> ruku_in_juz a = startRuku
           \<longrightarrow> global_order s \<le> global_order a"
    and "e \<in> set ayahs" "juz_number e = endJuz" "ruku_in_juz e = endRuku"
    and "\<forall>a\<in>set ayahs. juz_number a = endJuz \<and> ruku_in_juz a = endRuku
           \<longrightarrow> global_order a \<le> global_order e"
  shows "get_ayahs_between_rukus ayahs startJuz startRuku endJuz endRuku =
           (if global_order s > global_order e then []
            else filter (\<lambda>a. global_order s \<le> global_order a \<and> global_order a \<le> global_order e)
                   ayahs)"
proof -
  have "get_ayahs_for_ruku ayahs startJuz startRuku \<noteq> []"
    "get_ayahs_for_ruku ayahs endJuz endRuku \<noteq> []"
    using assms(2-4,6-8) by (auto simp: get_ayahs_for_ruku_def filter_empty_conv)
  then show ?thesis
    using ruku_first_order[OF assms(1-5)] ruku_last_order[OF assms(1,6-9)]
    by (simp add: get_ayahs_between_rukus_def Let_def)
qed

lemma find_by_key:
  assumes "distinct (map verse_key ayahs)" "s \<in> set ayahs" "verse_key s = k"
  shows "List.find (\<lambda>a. verse_key a = k) ayahs = Some s"
proof (rule find_unique)
  show "\<forall>y\<in>set ayahs. verse_key y = k \<longrightarrow> y = s"
    using assms by (auto simp: distinct_map dest: inj_onD)
qed (use assms in auto)

lemma between_verse_keys_found:
  assumes "List.find (\<lambda>a. verse_key a = startKey) ayahs = Some s"
    and "List.find (\<lambda>a. verse_key a = endKey) ayahs = Some e"
  shows "get_ayahs_between_verse_keys ayahs startKey endKey =
           (if global_order s > global_order e then []
            else filter (\<lambda>a. global_order s \<le> global_order a \<and> global_order a \<le> global_order e)
                   ayahs)"
  using assms by (simp add: get_ayahs_between_verse_keys_def)

subsection \<open>Next and previous verse\<close>

lemma getNextAyah_Some: "getNextAyah ayahs v = Some r \<Longrightarrow> r \<in> set ayahs \<and> global_order r = global_order v + 1"
  unfolding getNextAyah_def by (drule find_SomeD) simp

lemma getPrevAyah_Some: "getPrevAyah ayahs v = Some r \<Longrightarrow> r \<in> set ayahs \<and> global_order r = global_order v - 1"
  unfolding getPrevAyah_def by (drule find_SomeD) simp

lemma getNextAyah_None:
  "getNextAyah ayahs v = None \<longleftrightarrow> (\<forall>a\<in>set ayahs. global_order a \<noteq> global_order v + 1)"
  by (auto simp: getNextAyah_def find_None_iff)

lemma getPrevAyah_None:
  "getPrevAyah ayahs v = None \<longleftrightarrow> (\<forall>a\<in>set ayahs. global_order a \<noteq> global_order v - 1)"
  by (auto simp: getPrevAyah_def find_None_iff)

lemma getNextAyah_unique:
  "distinct (map global_order ayahs) \<Longrightarrow> p \<in> set ayahs \<Longrightarrow> global_order p = global_order v + 1
   \<Longrightarrow> getNextAyah ayahs v = Some p"
  unfolding getNextAyah_def by (rule find_by_order)

lemma getPrevAyah_unique:
  "distinct (map global_order ayahs) \<Longrightarrow> p \<in> set ayahs \<Longrightarrow> global_order p = global_order v - 1
   \<Longrightarrow> getPrevAyah ayahs v = Some p"
  unfolding getPrevAyah_def by (rule find_by_order)

lemma orders_upto:
  assumes "map global_order ayahs = [lo..hi]"
  shows "global_order ` set ayahs = {lo..hi}"
    and "distinct (map global_order ayahs)"
    and "sorted (map global_order ayahs)"
    and "sorted_wrt (<) (map global_order ayahs)"
proof -
  show "global_order ` set ayahs = {lo..hi}"
    using arg_cong[OF assms, of set] by simp
  show "distinct (map global_order ayahs)" "sorted (map global_order ayahs)"
    by (simp_all add: assms)
  then show "sorted_wrt (<) (map global_order ayahs)"
    by (simp add: strict_sorted_iff)
qed

lemma next_None_iff_last:
  assumes "map global_order ayahs = [lo..hi]" "v \<in> set ayahs"
  shows "getNextAyah ayahs v = None \<longleftrightarrow> (\<forall>a\<in>set ayahs. global_order a \<le> global_order v)"
proof -
  have img: "global_order ` set ayahs = {lo..hi}"
    by (rule orders_upto[OF assms(1)])
  with assms(2) have v: "lo \<le> global_order v" "global_order v \<le> hi"
    by auto
  have "getNextAyah ayahs v = None \<longleftrightarrow> global_order v + 1 \<notin> global_order ` set ayahs"
    unfolding getNextAyah_None by (metis imageE image_eqI)
  also have "\<dots> \<longleftrightarrow> global_order v = hi"
    using v by (auto simp: img)
  also have "\<dots> \<longleftrightarrow> (\<forall>k\<in>global_order ` set ayahs. k \<le> global_order v)"
  proof
    assume "global_order v = hi"
    then show "\<forall>k\<in>global_order ` set ayahs. k \<le> global_order v"
      unfolding img by simp
  next
    assume "\<forall>k\<in>global_order ` set ayahs. k \<le> global_order v"
    then have "hi \<le> global_order v"
      unfolding img using v by simp
    with v show "global_order v = hi" by simp
  qed
  finally show ?thesis by simp
qed

lemma prev_None_iff_first:
  assumes "map global_order ayahs = [lo..hi]" "v \<in> set ayahs"
  shows "getPrevAyah ayahs v = None \<longleftrightarrow> (\<forall>a\<in>set ayahs. global_order v \<le> global_order a)"
proof -
  have img: "global_order ` set ayahs = {lo..hi}"
    by (rule orders_upto[OF assms(1)])
  with assms(2) have v: "lo \<le> global_order v" "global_order v \<le> hi"
    by auto
  have "getPrevAyah ayahs v = None \<longleftrightarrow> global_order v - 1 \<notin> global_order ` set ayahs"
    unfolding getPrevAyah_None by (metis imageE image_eqI)
  also have "\<dots> \<longleftrightarrow> global_order v = lo"
    using v by (auto simp: img)
  also have "\<dots> \<longleftrightarrow> (\<forall>k\<in>global_order ` set ayahs. global_order v \<le> k)"
  proof
    assume "global_order v = lo"
    then show "\<forall>k\<in>global_order ` set ayahs. global_order v \<le> k"
      unfolding img by simp
  next
    assume "\<forall>k\<in>global_order ` set ayahs. global_order v \<le> k"
    then have "global_order v \<le> lo"
      unfolding img using v by simp
    with v show "global_order v = lo" by simp
  qed
  finally show ?thesis by simp
qed

subsection \<open>Nearest ruku boundary\<close>

lemma same_order_same_verse:
  "distinct (map global_order ayahs) \<Longrightarrow> a \<in> set ayahs \<Longrightarrow> b \<in> set ayahs \<Longrightarrow>
   global_order a = global_order b \<Longrightarrow> a = b"
  by (auto simp: distinct_map dest: inj_onD)

lemma next_start_found:
  assumes "sorted_wrt (<) (map global_order ayahs)"
    and "n \<in> set ayahs" "is_ruku_start n" "global_order v < global_order n"
    and "\<forall>m\<in>set ayahs. is_ruku_start m \<and> global_order v < global_order m
           \<longrightarrow> global_order n \<le> global_order m"
  shows "List.find (\<lambda>a. global_order a > global_order v \<and> is_ruku_start a) ayahs = Some n"
proof (cases "List.find (\<lambda>a. global_order a > global_order v \<and> is_ruku_start a) ayahs")
  case None
  then have "\<not> (\<exists>x. x \<in> set ayahs \<and> (global_order x > global_order v \<and> is_ruku_start x))"
    by (simp add: find_None_iff)
  with assms(2-4) show ?thesis by blast
next
  case (Some x)
  have so: "sorted (map global_order ayahs)" and di: "distinct (map global_order ayahs)"
    using assms(1) by (simp_all add: strict_sorted_iff)
  from find_SomeD[OF Some] have x: "x \<in> set ayahs" "global_order v < global_order x" "is_ruku_start x"
    by simp_all
  have "global_order x \<le> global_order n"
    using find_first_least[OF so Some assms(2)] assms(3,4) by simp
  moreover have "global_order n \<le> global_order x"
    using assms(5) x by blast
  ultimately have "x = n"
    using same_order_same_verse[OF di x(1) assms(2)] by simp
  with Some show ?thesis by simp
qed

lemma prev_start_found:
  assumes "sorted_wrt (<) (map global_order ayahs)"
    and "n \<in> set ayahs" "is_ruku_start n" "global_order n < global_order v"
    and "\<forall>m\<in>set ayahs. is_ruku_start m \<and> global_order m < global_order v
           \<longrightarrow> global_order m \<le> global_order n"
  shows "List.find (\<lambda>a. global_order a < global_order v \<and> is_ruku_start a) (rev ayahs) = Some n"
proof (cases "List.find (\<lambda>a. global_order a < global_order v \<and> is_ruku_start a) (rev ayahs)")
  case None
  then have "\<not> (\<exists>x. x \<in> set (rev ayahs) \<and> (global_order x < global_order v \<and> is_ruku_start x))"
    by (simp add: find_None_iff)
  with assms(2-4) show ?thesis by simp
next
  case (Some x)
  have so: "sorted (map global_order ayahs)" and di: "distinct (map global_order ayahs)"
    using assms(1) by (simp_all add: strict_sorted_iff)
  from find_SomeD[OF Some] have x: "x \<in> set ayahs" "global_order x < global_order v" "is_ruku_start x"
    by simp_all
  have "global_order n \<le> global_order x"
    using find_rev_greatest[OF so Some assms(2)] assms(3,4) by simp
  moreover have "global_order x \<le> global_order n"
    using assms(5) x by blast
  ultimately have "x = n"
    using same_order_same_verse[OF di x(1) assms(2)] by simp
  with Some show ?thesis by simp
qed

lemma forward_no_start:
  assumes "sorted (map global_order ayahs)" "v \<in> set ayahs"
    and "\<forall>a\<in>set ayahs. \<not> (global_order v < global_order a \<and> is_ruku_start a)"
  shows "getNearestRukuBoundary ayahs v Forward = Some (last ayahs)"
    and "last ayahs \<in> set ayahs"
    and "\<forall>a\<in>set ayahs. global_order a \<le> global_order (last ayahs)"
proof -
  have ne: "ayahs \<noteq> []"
    using assms(2) by auto
  have "List.find (\<lambda>a. global_order a > global_order v \<and> is_ruku_start a) ayahs = None"
    using assms(3) by (simp add: find_None_iff)
  then show "getNearestRukuBoundary ayahs v Forward = Some (last ayahs)"
    by (simp add: at_index_last[OF ne])
  show "last ayahs \<in> set ayahs"
    using ne by simp
  show "\<forall>a\<in>set ayahs. global_order a \<le> global_order (last ayahs)"
    using sorted_last_greatest[OF assms(1)] by blast
qed

lemma backward_no_start:
  assumes "sorted (map global_order ayahs)" "v \<in> set ayahs"
    and "\<forall>a\<in>set ayahs. \<not> (global_order a < global_order v \<and> is_ruku_start a)"
  shows "getNearestRukuBoundary ayahs v Backward = Some (hd ayahs)"
    and "hd ayahs \<in> set ayahs"
    and "\<forall>a\<in>set ayahs. global_order (hd ayahs) \<le> global_order a"
proof -
  have ne: "ayahs \<noteq> []"
    using assms(2) by auto
  have "List.find (\<lambda>a. global_order a < global_order v \<and> is_ruku_start a) (rev ayahs) = None"
    using assms(3) by (simp add: find_None_iff)
  then show "getNearestRukuBoundary ayahs v Backward = Some (hd ayahs)"
    by (simp add: at_index_first[OF ne])
  show "hd ayahs \<in> set ayahs"
    using ne by simp
  show "\<forall>a\<in>set ayahs. global_order (hd ayahs) \<le> global_order a"
    using sorted_first_least[OF assms(1)] by blast
qed

lemma forward_start_prev:
  assumes "sorted_wrt (<) (map global_order ayahs)"
    and "n \<in> set ayahs" "is_ruku_start n" "global_order v < global_order n"
    and "\<forall>m\<in>set ayahs. is_ruku_start m \<and> global_order v < global_order m
           \<longrightarrow> global_order n \<le> global_order m"
    and "p \<in> set ayahs" "global_order p = global_order n - 1"
  shows "getNearestRukuBoundary ayahs v Forward = Some p"
proof -
  have "distinct (map global_order ayahs)"
    using assms(1) by (simp add: strict_sorted_iff)
  then have "getPrevAyah ayahs n = Some p"
    using assms(6,7) by (rule getPrevAyah_unique)
  then show ?thesis
    by (simp add: next_start_found[OF assms(1-5)])
qed

lemma forward_start_gap:
  assumes "sorted_wrt (<) (map global_order ayahs)"
    and "n \<in> set ayahs" "is_ruku_start n" "global_order v < global_order n"
    and "\<forall>m\<in>set ayahs. is_ruku_start m \<and> global_order v < global_order m
           \<longrightarrow> global_order n \<le> global_order m"
    and "\<forall>a\<in>set ayahs. global_order a \<noteq> global_order n - 1"
  shows "getNearestRukuBoundary ayahs v Forward = Some v"
proof -
  have "getPrevAyah ayahs n = None"
    using assms(6) by (simp add: getPrevAyah_None)
  then show ?thesis
    by (simp add: next_start_found[OF assms(1-5)])
qed

lemma backward_start:
  assumes "sorted_wrt (<) (map global_order ayahs)"
    and "n \<in> set ayahs" "is_ruku_start n" "global_order n < global_order v"
    and "\<forall>m\<in>set ayahs. is_ruku_start m \<and> global_order m < global_order v
           \<longrightarrow> global_order m \<le> global_order n"
  shows "getNearestRukuBoundary ayahs v Backward = Some n"
  by (simp add: prev_start_found[OF assms])

text \<open>With consecutive orders the verse just before a later verse carries the order one less.\<close>

lemma preceding_order:
  assumes "map global_order ayahs = [lo..hi]"
    and "v \<in> set ayahs" "n \<in> set ayahs" "global_order v < global_order n"
    and "p \<in> set ayahs" "global_order p < global_order n"
    and "\<forall>a\<in>set ayahs. global_order a < global_order n \<longrightarrow> global_order a \<le> global_order p"
  shows "global_order p = global_order n - 1"
proof -
  have img: "global_order ` set ayahs = {lo..hi}"
    by (rule orders_upto[OF assms(1)])
  have "global_order v \<in> {lo..hi}" "global_order n \<in> {lo..hi}"
    using assms(2,3) img by blast+
  with assms(4) have "global_order n - 1 \<in> {lo..hi}"
    by simp
  then obtain q where q: "q \<in> set ayahs" "global_order q = global_order n - 1"
    unfolding img[symmetric] by (metis imageE)
  then have "global_order q < global_order n"
    by simp
  with q(1) assms(7) have "global_order q \<le> global_order p"
    by blast
  with q(2) assms(6) show ?thesis by simp
qed

lemma forward_never_fails:
  assumes "v \<in> set ayahs"
  shows "\<exists>r. getNearestRukuBoundary ayahs v Forward = Some r \<and> r \<in> set ayahs"
proof (cases "List.find (\<lambda>a. global_order a > global_order v \<and> is_ruku_start a) ayahs")
  case None
  have ne: "ayahs \<noteq> []" using assms by auto
  with None show ?thesis
    by (simp add: at_index_last[OF ne])
next
  case (Some n)
  then show ?thesis
    using assms by (cases "getPrevAyah ayahs n") (auto dest: getPrevAyah_Some)
qed

lemma backward_never_fails:
  assumes "v \<in> set ayahs"
  shows "\<exists>r. getNearestRukuBoundary ayahs v Backward = Some r \<and> r \<in> set ayahs"
proof (cases "List.find (\<lambda>a. global_order a < global_order v \<and> is_ruku_start a) (rev ayahs)")
  case None
  have ne: "ayahs \<noteq> []" using assms by auto
  with None show ?thesis
    by (simp add: at_index_first[OF ne])
next
  case (Some n)
  with find_SomeD[OF Some] show ?thesis by simp
qed

lemma example_scenario:
  assumes o: "map global_order xs = [1, 2, 3, 4, 5, 6, 7, 8, 9, 10]"
    and s: "map is_ruku_start xs = [True, False, False, True, False, False, False, True, False, False]"
  shows "getNearestRukuBoundary xs (xs ! 4) Forward = Some (xs ! 6)"
    and "getNearestRukuBoundary xs (xs ! 4) Backward = Some (xs ! 3)"
proof -
  from o obtain a0 a1 a2 a3 a4 a5 a6 a7 a8 a9 where xs: "xs = [a0, a1, a2, a3, a4, a5, a6, a7, a8, a9]"
    by (auto simp: map_eq_Cons_conv)
  show "getNearestRukuBoundary xs (xs ! 4) Forward = Some (xs ! 6)"
    using o s unfolding xs by (simp add: getPrevAyah_def)
  show "getNearestRukuBoundary xs (xs ! 4) Backward = Some (xs ! 3)"
    using o s unfolding xs by simp
qed

subsection \<open>Last verse of a ruku\<close>

lemma ruku_mono:
  assumes "sorted_wrt (<) (map global_order xs)" "sorted (map ruku_global xs)"
    and "a \<in> set xs" "b \<in> set xs" "global_order a \<le> global_order b"
  shows "ruku_global a \<le> ruku_global b"
proof -
  from assms(3) obtain i where i: "i < length xs" "a = xs ! i"
    by (metis in_set_conv_nth)
  from assms(4) obtain j where j: "j < length xs" "b = xs ! j"
    by (metis in_set_conv_nth)
  show ?thesis
  proof (cases "i \<le> j")
    case True
    then show ?thesis
      using sorted_nth_mono[OF assms(2), of i j] i j by simp
  next
    case False
    then have "j < i" by simp
    then have "global_order b < global_order a"
      using sorted_wrt_nth_less[OF assms(1), of j i] i j by simp
    with assms(5) show ?thesis by simp
  qed
qed

lemma mem_nonempty: "x \<in> set xs \<Longrightarrow> xs \<noteq> []"
  by auto

lemma nth0_mem: "x \<in> set xs \<Longrightarrow> xs ! 0 \<in> set xs"
  by (cases xs) auto

lemma last_of_ruku_by_filter:
  assumes "sorted (map global_order ayahs)" "distinct (map global_order ayahs)"
    and "m \<in> set ayahs" "ruku_global m = s"
    and "\<forall>b\<in>set ayahs. ruku_global b = s \<longrightarrow> global_order b \<le> global_order m"
  shows "at_index (filter (\<lambda>a. ruku_global a = s) ayahs)
           (int (length (filter (\<lambda>a. ruku_global a = s) ayahs)) - 1) = Some m"
proof -
  let ?R = "filter (\<lambda>a. ruku_global a = s) ayahs"
  have m: "m \<in> set ?R"
    using assms(3,4) by simp
  then have ne: "?R \<noteq> []" by (rule mem_nonempty)
  then have l: "last ?R \<in> set ?R"
    by (rule last_in_set)
  then have "global_order (last ?R) \<le> global_order m"
    using assms(5) by simp
  moreover have "global_order m \<le> global_order (last ?R)"
    using sorted_last_greatest[OF sorted_filter[OF assms(1)] m] .
  ultimately have "last ?R = m"
    using same_order_same_verse[OF assms(2), of "last ?R" m] l assms(3) by simp
  then show ?thesis
    using at_index_last[OF ne] by simp
qed

lemma prev_of_next_start:
  assumes orders: "map global_order ayahs = [lo..hi]"
    and rukus: "sorted (map ruku_global ayahs)"
    and m: "m \<in> set ayahs" "ruku_global m = s"
      "\<forall>b\<in>set ayahs. ruku_global b = s \<longrightarrow> global_order b \<le> global_order m"
    and n: "n \<in> set ayahs" "ruku_global n = s + 1"
      "\<forall>b\<in>set ayahs. ruku_global b = s + 1 \<longrightarrow> global_order n \<le> global_order b"
  shows "getPrevAyah ayahs n = Some m"
proof -
  note o = orders_upto[OF orders]
  have mn: "global_order m < global_order n"
  proof (rule ccontr)
    assume "\<not> global_order m < global_order n"
    then have "ruku_global n \<le> ruku_global m"
      using ruku_mono[OF o(4) rukus n(1) m(1)] by simp
    with m(2) n(2) show False by simp
  qed
  have "global_order m \<in> {lo..hi}" "global_order n \<in> {lo..hi}"
    using m(1) n(1) o(1) by blast+
  with mn have "global_order n - 1 \<in> {lo..hi}"
    by simp
  then obtain p where p: "p \<in> set ayahs" "global_order p = global_order n - 1"
    unfolding o(1)[symmetric] by (metis imageE)
  have "ruku_global p \<le> ruku_global n"
    using ruku_mono[OF o(4) rukus p(1) n(1)] p(2) by simp
  moreover have "ruku_global p \<noteq> s + 1"
    using n(3) p by force
  moreover have "ruku_global m \<le> ruku_global p"
    using ruku_mono[OF o(4) rukus m(1) p(1)] p(2) mn by simp
  ultimately have "ruku_global p = s"
    using m(2) n(2) by simp
  with m(3) p(1) have "global_order p \<le> global_order m"
    by blast
  with p(2) mn have "global_order p = global_order m"
    by simp
  then have "p = m"
    using same_order_same_verse[OF o(2) p(1) m(1)] by simp
  with p show ?thesis
    using getPrevAyah_unique[OF o(2), of m n] by simp
qed

lemma first_of_ruku_found:
  assumes "sorted (map global_order ayahs)" "distinct (map global_order ayahs)"
    and starts: "\<forall>a\<in>set ayahs. is_ruku_start a \<longleftrightarrow>
        (\<forall>b\<in>set ayahs. ruku_global b = ruku_global a \<longrightarrow> global_order a \<le> global_order b)"
    and "b \<in> set ayahs" "ruku_global b = k"
  shows "\<exists>n. List.find (\<lambda>a. ruku_global a = k \<and> is_ruku_start a) ayahs = Some n"
proof -
  let ?R = "filter (\<lambda>a. ruku_global a = k) ayahs"
  have "b \<in> set ?R"
    using assms(4,5) by simp
  then have "?R ! 0 \<in> set ?R"
    by (rule nth0_mem)
  then have f: "?R ! 0 \<in> set ayahs" "ruku_global (?R ! 0) = k"
    by simp_all
  have "\<forall>c\<in>set ayahs. ruku_global c = ruku_global (?R ! 0) \<longrightarrow> global_order (?R ! 0) \<le> global_order c"
    using sorted_filter_first_least[OF assms(1), of _ "\<lambda>a. ruku_global a = k"] f(2) by simp
  with starts f(1) have "is_ruku_start (?R ! 0)"
    by blast
  with f have "\<not> (\<nexists>x. x \<in> set ayahs \<and> (ruku_global x = k \<and> is_ruku_start x))"
    by blast
  then have "List.find (\<lambda>a. ruku_global a = k \<and> is_ruku_start a) ayahs \<noteq> None"
    by (simp add: find_None_iff)
  then show ?thesis by blast
qed

lemma prev_of_next_start_at:
  assumes orders: "sorted_wrt (<) (map global_order ayahs)"
    and rukus: "sorted (map ruku_global ayahs)"
    and m: "m \<in> set ayahs" "ruku_global m = s"
      "\<forall>b\<in>set ayahs. ruku_global b = s \<longrightarrow> global_order b \<le> global_order m"
    and n: "n \<in> set ayahs" "ruku_global n = s + 1"
      "\<forall>b\<in>set ayahs. ruku_global b = s + 1 \<longrightarrow> global_order n \<le> global_order b"
    and p: "p \<in> set ayahs" "global_order p = global_order n - 1"
  shows "getPrevAyah ayahs n = Some m"
proof -
  have di: "distinct (map global_order ayahs)"
    using orders by (simp add: strict_sorted_iff)
  have mn: "global_order m < global_order n"
  proof (rule ccontr)
    assume "\<not> global_order m < global_order n"
    then have "ruku_global n \<le> ruku_global m"
      using ruku_mono[OF orders rukus n(1) m(1)] by simp
    with m(2) n(2) show False by simp
  qed
  have "ruku_global p \<le> ruku_global n"
    using ruku_mono[OF orders rukus p(1) n(1)] p(2) by simp
  moreover have "ruku_global p \<noteq> s + 1"
    using n(3) p by force
  moreover have "ruku_global m \<le> ruku_global p"
    using ruku_mono[OF orders rukus m(1) p(1)] p(2) mn by simp
  ultimately have "ruku_global p = s"
    using m(2) n(2) by simp
  with m(3) p(1) have "global_order p \<le> global_order m"
    by blast
  with p(2) mn have "global_order p = global_order m"
    by simp
  then have "p = m"
    using same_order_same_verse[OF di p(1) m(1)] by simp
  with p show ?thesis
    using getPrevAyah_unique[OF di, of m n] by simp
qed

lemma last_of_ruku_via_start:
  "getFirstAyahOfRuku ayahs (s + 1) = Some n \<Longrightarrow> getLastAyahOfRuku ayahs s = getPrevAyah ayahs n"
  by (simp add: getFirstAyahOfRuku_def getLastAyahOfRuku_def)

lemma last_of_ruku_no_start:
  assumes "sorted_wrt (<) (map global_order ayahs)"
    and "m \<in> set ayahs" "ruku_global m = s"
    and "\<forall>b\<in>set ayahs. ruku_global b = s \<longrightarrow> global_order b \<le> global_order m"
    and "\<forall>a\<in>set ayahs. \<not> (ruku_global a = s + 1 \<and> is_ruku_start a)"
  shows "getLastAyahOfRuku ayahs s = Some m"
proof -
  have so: "sorted (map global_order ayahs)" and di: "distinct (map global_order ayahs)"
    using assms(1) by (simp_all add: strict_sorted_iff)
  have "List.find (\<lambda>a. ruku_global a = s + 1 \<and> is_ruku_start a) ayahs = None"
    using assms(5) by (simp add: find_None_iff)
  then show ?thesis
    using last_of_ruku_by_filter[OF so di assms(2-4)]
    by (simp add: getLastAyahOfRuku_def Let_def)
qed

text \<open>
  Both example indexes satisfy the invariants of the data model: strictly increasing orders,
  unique keys, non-decreasing ruku, juz and page, and the start and end flags on the first
  and last verse of each ruku and page.
\<close>

lemma gapped_verses_well_formed:
  "sorted_wrt (<) (map global_order gapped_verses) \<and>
   distinct (map verse_key gapped_verses) \<and>
   sorted (map ruku_global gapped_verses) \<and>
   sorted (map juz_number gapped_verses) \<and>
   sorted (map page_13line gapped_verses) \<and>
   (\<forall>a\<in>set gapped_verses. is_ruku_start a \<longleftrightarrow>
      (\<forall>b\<in>set gapped_verses. ruku_global b = ruku_global a
          \<longrightarrow> global_order a \<le> global_order b)) \<and>
   (\<forall>a\<in>set gapped_verses. is_page_start a \<longleftrightarrow>
      (\<forall>b\<in>set gapped_verses. page_13line b = page_13line a
          \<longrightarrow> global_order a \<le> global_order b)) \<and>
   (\<forall>a\<in>set gapped_verses. is_page_end a \<longleftrightarrow>
      (\<forall>b\<in>set gapped_verses. page_13line b = page_13line a
          \<longrightarrow> global_order b \<le> global_order a))"
  by code_simp

lemma ten_verses_well_formed:
  "sorted_wrt (<) (map global_order ten_verses) \<and>
   distinct (map verse_key ten_verses) \<and>
   sorted (map ruku_global ten_verses) \<and>
   sorted (map juz_number ten_verses) \<and>
   sorted (map page_13line ten_verses) \<and>
   (\<forall>a\<in>set ten_verses. is_ruku_start a \<longleftrightarrow>
      (\<forall>b\<in>set ten_verses. ruku_global b = ruku_global a
          \<longrightarrow> global_order a \<le> global_order b)) \<and>
   (\<forall>a\<in>set ten_verses. is_page_start a \<longleftrightarrow>
      (\<forall>b\<in>set ten_verses. page_13line b = page_13line a
          \<longrightarrow> global_order a \<le> global_order b)) \<and>
   (\<forall>a\<in>set ten_verses. is_page_end a \<longleftrightarrow>
      (\<forall>b\<in>set ten_verses. page_13line b = page_13line a
          \<longrightarrow> global_order b \<le> global_order a))"
  by code_simp

section \<open>The claims\<close>

subsection \<open>C1: Pool builder: order and uniqueness\<close>

text \<open>
  Claim C1. In a verse index \<open>global_order\<close> is unique (data model, section 3 of the
  specification).  For every such index and every list of range descriptors, empty or not,
  the output of \<open>buildTestPool\<close> is strictly ascending in \<open>global_order\<close>.  For every list
  of records whatever, the output ascends in \<open>global_order\<close>, no two of its verses share a
  \<open>verse_key\<close>, and \<open>buildTestPool\<close> of the empty descriptor list is the empty sequence.
\<close>

theorem C1_pool_sorted_unique:
  "(distinct (map global_order ayahs) \<longrightarrow>
      sorted_wrt (<) (map global_order (buildTestPool ayahs ranges))) \<and>
   sorted (map global_order (buildTestPool ayahs ranges)) \<and>
   distinct (map verse_key (buildTestPool ayahs ranges)) \<and>
   buildTestPool ayahs [] = []"
  by (simp add: buildTestPool_strict buildTestPool_sorted buildTestPool_distinct_keys
      buildTestPool_Nil)

text \<open>
  The ten-verse index has unique orders; the theorem applied to three overlapping ranges.
\<close>

theorem C1_pool_sorted_unique_witness:
  "distinct (map global_order ten_verses) \<and>
   sorted_wrt (<) (map global_order
     (buildTestPool ten_verses [JuzRange 2 2, AyahRange 1 6 2 1, RukuRange 1 1 1 1])) \<and>
   distinct (map verse_key
     (buildTestPool ten_verses [JuzRange 2 2, AyahRange 1 6 2 1, RukuRange 1 1 1 1])) \<and>
   buildTestPool ten_verses [] = []"
proof -
  have h: "distinct (map global_order ten_verses)"
    by code_simp
  show ?thesis
    using h C1_pool_sorted_unique[of ten_verses
        "[JuzRange 2 2, AyahRange 1 6 2 1, RukuRange 1 1 1 1]"]
    by blast
qed

text \<open>
  Uniqueness of \<open>global_order\<close> is used: of two records that share an order both can
  enter the pool, and the output then ascends only weakly.
\<close>

lemma unique_order_needed:
  "map global_order (buildTestPool tied_verses [JuzRange 1 1]) = [1, 1]"
  by code_simp

subsection \<open>C2: Ruku span\<close>

text \<open>
  Claim C2. Let the index be sorted ascending by \<open>global_order\<close>.  If no verse carries the
  start pair (juz, ruku_in_juz), or none carries the end pair, \<open>get_ayahs_between_rukus\<close>
  returns the empty sequence.  Otherwise let \<open>s\<close> be a verse of least \<open>global_order\<close> among
  those with the start pair and \<open>e\<close> one of greatest \<open>global_order\<close> among those with the
  end pair: the result is empty when \<open>s\<close> lies after \<open>e\<close>, and otherwise it is exactly the
  index filtered to the orders from that of \<open>s\<close> to that of \<open>e\<close> inclusive, so every verse
  of every ruku in between is in it.
\<close>

theorem C2_between_rukus_span:
  assumes "sorted (map global_order ayahs)"
  shows
    "((\<forall>a\<in>set ayahs. \<not> (juz_number a = startJuz \<and> ruku_in_juz a = startRuku)) \<or>
      (\<forall>a\<in>set ayahs. \<not> (juz_number a = endJuz \<and> ruku_in_juz a = endRuku)) \<longrightarrow>
        get_ayahs_between_rukus ayahs startJuz startRuku endJuz endRuku = []) \<and>
     (\<forall>s e.
        s \<in> set ayahs \<and> juz_number s = startJuz \<and> ruku_in_juz s = startRuku \<and>
        (\<forall>a\<in>set ayahs. juz_number a = startJuz \<and> ruku_in_juz a = startRuku
            \<longrightarrow> global_order s \<le> global_order a) \<and>
        e \<in> set ayahs \<and> juz_number e = endJuz \<and> ruku_in_juz e = endRuku \<and>
        (\<forall>a\<in>set ayahs. juz_number a = endJuz \<and> ruku_in_juz a = endRuku
            \<longrightarrow> global_order a \<le> global_order e) \<longrightarrow>
        (global_order s > global_order e \<longrightarrow>
           get_ayahs_between_rukus ayahs startJuz startRuku endJuz endRuku = []) \<and>
        (global_order s \<le> global_order e \<longrightarrow>
           get_ayahs_between_rukus ayahs startJuz startRuku endJuz endRuku
             = filter (\<lambda>a. global_order s \<le> global_order a \<and> global_order a \<le> global_order e)
                 ayahs))"
proof (intro conjI allI impI)
  assume "(\<forall>a\<in>set ayahs. \<not> (juz_number a = startJuz \<and> ruku_in_juz a = startRuku)) \<or>
          (\<forall>a\<in>set ayahs. \<not> (juz_number a = endJuz \<and> ruku_in_juz a = endRuku))"
  then show "get_ayahs_between_rukus ayahs startJuz startRuku endJuz endRuku = []"
    by (rule between_rukus_missing)
next
  fix s e
  assume h: "s \<in> set ayahs \<and> juz_number s = startJuz \<and> ruku_in_juz s = startRuku \<and>
        (\<forall>a\<in>set ayahs. juz_number a = startJuz \<and> ruku_in_juz a = startRuku
            \<longrightarrow> global_order s \<le> global_order a) \<and>
        e \<in> set ayahs \<and> juz_number e = endJuz \<and> ruku_in_juz e = endRuku \<and>
        (\<forall>a\<in>set ayahs. juz_number a = endJuz \<and> ruku_in_juz a = endRuku
            \<longrightarrow> global_order a \<le> global_order e)"
  have eq: "get_ayahs_between_rukus ayahs startJuz startRuku endJuz endRuku =
           (if global_order s > global_order e then []
            else filter (\<lambda>a. global_order s \<le> global_order a \<and> global_order a \<le> global_order e)
                   ayahs)"
    using h by (intro between_rukus_present[OF assms]) blast+
  { assume "global_order s > global_order e"
    with eq show "get_ayahs_between_rukus ayahs startJuz startRuku endJuz endRuku = []"
      by simp }
  { assume "global_order s \<le> global_order e"
    with eq show "get_ayahs_between_rukus ayahs startJuz startRuku endJuz endRuku
             = filter (\<lambda>a. global_order s \<le> global_order a \<and> global_order a \<le> global_order e)
                 ayahs"
      by simp }
qed

text \<open>
  On the ten-verse index: a missing end pair, an inverted span, and the span from the first
  ruku of juz 1 to the first ruku of juz 2, which also takes in the ruku lying between them.
\<close>

theorem C2_between_rukus_span_witness:
  "sorted (map global_order ten_verses) \<and>
   get_ayahs_between_rukus ten_verses 1 1 7 1 = [] \<and>
   get_ayahs_between_rukus ten_verses 2 1 1 1 = [] \<and>
   map global_order (get_ayahs_between_rukus ten_verses 1 1 2 1) = [1, 2, 3, 4, 5, 6, 7, 8, 9, 10]"
proof -
  have h: "sorted (map global_order ten_verses)"
    by code_simp
  have none: "\<forall>a\<in>set ten_verses. \<not> (juz_number a = 7 \<and> ruku_in_juz a = 1)"
    by (simp add: ten_verses_def example_verse_def)
  have first: "ten_verses ! 0 \<in> set ten_verses \<and> juz_number (ten_verses ! 0) = 1 \<and>
      ruku_in_juz (ten_verses ! 0) = 1 \<and>
      (\<forall>a\<in>set ten_verses. juz_number a = 1 \<and> ruku_in_juz a = 1
          \<longrightarrow> global_order (ten_verses ! 0) \<le> global_order a)"
    by (simp add: ten_verses_def example_verse_def)
  have last1: "ten_verses ! 2 \<in> set ten_verses \<and> juz_number (ten_verses ! 2) = 1 \<and>
      ruku_in_juz (ten_verses ! 2) = 1 \<and>
      (\<forall>a\<in>set ten_verses. juz_number a = 1 \<and> ruku_in_juz a = 1
          \<longrightarrow> global_order a \<le> global_order (ten_verses ! 2))"
    by (simp add: ten_verses_def example_verse_def)
  have first2: "ten_verses ! 7 \<in> set ten_verses \<and> juz_number (ten_verses ! 7) = 2 \<and>
      ruku_in_juz (ten_verses ! 7) = 1 \<and>
      (\<forall>a\<in>set ten_verses. juz_number a = 2 \<and> ruku_in_juz a = 1
          \<longrightarrow> global_order (ten_verses ! 7) \<le> global_order a)"
    by (simp add: ten_verses_def example_verse_def)
  have last2: "ten_verses ! 9 \<in> set ten_verses \<and> juz_number (ten_verses ! 9) = 2 \<and>
      ruku_in_juz (ten_verses ! 9) = 1 \<and>
      (\<forall>a\<in>set ten_verses. juz_number a = 2 \<and> ruku_in_juz a = 1
          \<longrightarrow> global_order a \<le> global_order (ten_verses ! 9))"
    by (simp add: ten_verses_def example_verse_def)
  have o: "global_order (ten_verses ! 7) > global_order (ten_verses ! 2)"
    "global_order (ten_verses ! 0) \<le> global_order (ten_verses ! 9)"
    by code_simp+
  have v: "map global_order (filter (\<lambda>a. global_order (ten_verses ! 0) \<le> global_order a
      \<and> global_order a \<le> global_order (ten_verses ! 9)) ten_verses)
      = [1, 2, 3, 4, 5, 6, 7, 8, 9, 10]"
    by code_simp
  have "get_ayahs_between_rukus ten_verses 1 1 7 1 = []"
    using C2_between_rukus_span[OF h, where startJuz=1 and startRuku=1 and endJuz=7
        and endRuku=1] none by blast
  moreover have "get_ayahs_between_rukus ten_verses 2 1 1 1 = []"
    using C2_between_rukus_span[OF h, where startJuz=2 and startRuku=1 and endJuz=1
        and endRuku=1] first2 last1 o(1) by blast
  moreover have "get_ayahs_between_rukus ten_verses 1 1 2 1
      = filter (\<lambda>a. global_order (ten_verses ! 0) \<le> global_order a
          \<and> global_order a \<le> global_order (ten_verses ! 9)) ten_verses"
    using C2_between_rukus_span[OF h, where startJuz=1 and startRuku=1 and endJuz=2
        and endRuku=1] first last2 o(2) by blast
  ultimately show ?thesis
    using h v by simp
qed

subsection \<open>C3: Nearest ruku boundary\<close>

text \<open>
  The claim as stated fails where the orders have a gap, which the data model allows: in the
  index with orders 1, 2, 4, 6 and ruku starts at orders 1 and 6, the verse immediately
  before the start at order 6 is the one of order 4, but the forward query from the verse of
  order 2 returns that verse of order 2 itself.
\<close>

theorem C3_forward_boundary_gap:
  "sorted_wrt (<) (map global_order gapped_verses) \<and>
   map global_order gapped_verses = [1, 2, 4, 6] \<and>
   map is_ruku_start gapped_verses = [True, False, False, True] \<and>
   getNearestRukuBoundary gapped_verses (gapped_verses ! 1) Forward = Some (gapped_verses ! 1) \<and>
   gapped_verses ! 1 \<noteq> gapped_verses ! 2"
  by code_simp

text \<open>
  Claim C3, as amended.  Let the index be strictly ascending in \<open>global_order\<close> and \<open>v\<close> a
  verse of it.  Both directions return a verse of the index.  Forward: when no verse after
  \<open>v\<close> starts a ruku the result has the greatest order of the index; otherwise, with \<open>n\<close>
  the first ruku start after \<open>v\<close>, the result is the verse whose order is one less than that
  of \<open>n\<close>, and \<open>v\<close> itself when the index has no such verse; when the orders of the index
  are the consecutive integers \<open>lo, \<dots>, hi\<close> the result is the verse immediately before \<open>n\<close>.
  Backward: the result is the nearest ruku start strictly before \<open>v\<close>, and the verse of
  least order when there is none.  In every index with orders 1 to 10 and ruku starts at
  orders 1, 4 and 8, the forward query from the verse of order 5 gives the verse of order 7
  and the backward query the verse of order 4.
\<close>

theorem C3_nearest_ruku_boundary:
  assumes "sorted_wrt (<) (map global_order ayahs)" and "v \<in> set ayahs"
  shows
    "(\<exists>r. getNearestRukuBoundary ayahs v Forward = Some r \<and> r \<in> set ayahs) \<and>
     (\<exists>r. getNearestRukuBoundary ayahs v Backward = Some r \<and> r \<in> set ayahs) \<and>
     ((\<forall>a\<in>set ayahs. \<not> (global_order v < global_order a \<and> is_ruku_start a)) \<longrightarrow>
        (\<exists>r. getNearestRukuBoundary ayahs v Forward = Some r \<and> r \<in> set ayahs \<and>
             (\<forall>a\<in>set ayahs. global_order a \<le> global_order r))) \<and>
     (\<forall>n. n \<in> set ayahs \<and> is_ruku_start n \<and> global_order v < global_order n \<and>
          (\<forall>m\<in>set ayahs. is_ruku_start m \<and> global_order v < global_order m
              \<longrightarrow> global_order n \<le> global_order m) \<longrightarrow>
        (\<forall>p\<in>set ayahs. global_order p = global_order n - 1 \<longrightarrow>
           getNearestRukuBoundary ayahs v Forward = Some p) \<and>
        ((\<forall>a\<in>set ayahs. global_order a \<noteq> global_order n - 1) \<longrightarrow>
           getNearestRukuBoundary ayahs v Forward = Some v) \<and>
        (\<forall>lo hi p. map global_order ayahs = [lo..hi] \<and> p \<in> set ayahs \<and>
           global_order p < global_order n \<and>
           (\<forall>a\<in>set ayahs. global_order a < global_order n \<longrightarrow> global_order a \<le> global_order p)
           \<longrightarrow> getNearestRukuBoundary ayahs v Forward = Some p)) \<and>
     (\<forall>n. n \<in> set ayahs \<and> is_ruku_start n \<and> global_order n < global_order v \<and>
          (\<forall>m\<in>set ayahs. is_ruku_start m \<and> global_order m < global_order v
              \<longrightarrow> global_order m \<le> global_order n) \<longrightarrow>
        getNearestRukuBoundary ayahs v Backward = Some n) \<and>
     ((\<forall>a\<in>set ayahs. \<not> (global_order a < global_order v \<and> is_ruku_start a)) \<longrightarrow>
        (\<exists>r. getNearestRukuBoundary ayahs v Backward = Some r \<and> r \<in> set ayahs \<and>
             (\<forall>a\<in>set ayahs. global_order r \<le> global_order a))) \<and>
     (\<forall>xs. map global_order xs = [1, 2, 3, 4, 5, 6, 7, 8, 9, 10] \<and>
           map is_ruku_start xs
             = [True, False, False, True, False, False, False, True, False, False] \<longrightarrow>
        getNearestRukuBoundary xs (xs ! 4) Forward = Some (xs ! 6) \<and>
        getNearestRukuBoundary xs (xs ! 4) Backward = Some (xs ! 3))"
proof -
  have so: "sorted (map global_order ayahs)"
    using assms(1) by (simp add: strict_sorted_iff)
  have c1: "\<exists>r. getNearestRukuBoundary ayahs v Forward = Some r \<and> r \<in> set ayahs"
    by (rule forward_never_fails[OF assms(2)])
  have c2: "\<exists>r. getNearestRukuBoundary ayahs v Backward = Some r \<and> r \<in> set ayahs"
    by (rule backward_never_fails[OF assms(2)])
  have c3: "(\<forall>a\<in>set ayahs. \<not> (global_order v < global_order a \<and> is_ruku_start a)) \<longrightarrow>
        (\<exists>r. getNearestRukuBoundary ayahs v Forward = Some r \<and> r \<in> set ayahs \<and>
             (\<forall>a\<in>set ayahs. global_order a \<le> global_order r))"
  proof
    assume h: "\<forall>a\<in>set ayahs. \<not> (global_order v < global_order a \<and> is_ruku_start a)"
    show "\<exists>r. getNearestRukuBoundary ayahs v Forward = Some r \<and> r \<in> set ayahs \<and>
             (\<forall>a\<in>set ayahs. global_order a \<le> global_order r)"
      using forward_no_start[OF so assms(2) h] by blast
  qed
  have c4: "\<forall>n. n \<in> set ayahs \<and> is_ruku_start n \<and> global_order v < global_order n \<and>
          (\<forall>m\<in>set ayahs. is_ruku_start m \<and> global_order v < global_order m
              \<longrightarrow> global_order n \<le> global_order m) \<longrightarrow>
        (\<forall>p\<in>set ayahs. global_order p = global_order n - 1 \<longrightarrow>
           getNearestRukuBoundary ayahs v Forward = Some p) \<and>
        ((\<forall>a\<in>set ayahs. global_order a \<noteq> global_order n - 1) \<longrightarrow>
           getNearestRukuBoundary ayahs v Forward = Some v) \<and>
        (\<forall>lo hi p. map global_order ayahs = [lo..hi] \<and> p \<in> set ayahs \<and>
           global_order p < global_order n \<and>
           (\<forall>a\<in>set ayahs. global_order a < global_order n \<longrightarrow> global_order a \<le> global_order p)
           \<longrightarrow> getNearestRukuBoundary ayahs v Forward = Some p)"
  proof (intro conjI ballI allI impI)
    fix n p
    assume n: "n \<in> set ayahs \<and> is_ruku_start n \<and> global_order v < global_order n \<and>
          (\<forall>m\<in>set ayahs. is_ruku_start m \<and> global_order v < global_order m
              \<longrightarrow> global_order n \<le> global_order m)"
      and "p \<in> set ayahs" "global_order p = global_order n - 1"
    then show "getNearestRukuBoundary ayahs v Forward = Some p"
      by (intro forward_start_prev[OF assms(1), of n]) blast+
  next
    fix n
    assume n: "n \<in> set ayahs \<and> is_ruku_start n \<and> global_order v < global_order n \<and>
          (\<forall>m\<in>set ayahs. is_ruku_start m \<and> global_order v < global_order m
              \<longrightarrow> global_order n \<le> global_order m)"
      and "\<forall>a\<in>set ayahs. global_order a \<noteq> global_order n - 1"
    then show "getNearestRukuBoundary ayahs v Forward = Some v"
      by (intro forward_start_gap[OF assms(1), of n]) blast+
  next
    fix n lo hi p
    assume n: "n \<in> set ayahs \<and> is_ruku_start n \<and> global_order v < global_order n \<and>
          (\<forall>m\<in>set ayahs. is_ruku_start m \<and> global_order v < global_order m
              \<longrightarrow> global_order n \<le> global_order m)"
      and p: "map global_order ayahs = [lo..hi] \<and> p \<in> set ayahs \<and>
           global_order p < global_order n \<and>
           (\<forall>a\<in>set ayahs. global_order a < global_order n \<longrightarrow> global_order a \<le> global_order p)"
    have "global_order p = global_order n - 1"
      using p n assms(2) by (intro preceding_order[of ayahs lo hi v n p]) blast+
    with n p show "getNearestRukuBoundary ayahs v Forward = Some p"
      by (intro forward_start_prev[OF assms(1), of n]) blast+
  qed
  have c5: "\<forall>n. n \<in> set ayahs \<and> is_ruku_start n \<and> global_order n < global_order v \<and>
          (\<forall>m\<in>set ayahs. is_ruku_start m \<and> global_order m < global_order v
              \<longrightarrow> global_order m \<le> global_order n) \<longrightarrow>
        getNearestRukuBoundary ayahs v Backward = Some n"
  proof (intro allI impI)
    fix n
    assume "n \<in> set ayahs \<and> is_ruku_start n \<and> global_order n < global_order v \<and>
          (\<forall>m\<in>set ayahs. is_ruku_start m \<and> global_order m < global_order v
              \<longrightarrow> global_order m \<le> global_order n)"
    then show "getNearestRukuBoundary ayahs v Backward = Some n"
      by (intro backward_start[OF assms(1)]) blast+
  qed
  have c6: "(\<forall>a\<in>set ayahs. \<not> (global_order a < global_order v \<and> is_ruku_start a)) \<longrightarrow>
        (\<exists>r. getNearestRukuBoundary ayahs v Backward = Some r \<and> r \<in> set ayahs \<and>
             (\<forall>a\<in>set ayahs. global_order r \<le> global_order a))"
  proof
    assume h: "\<forall>a\<in>set ayahs. \<not> (global_order a < global_order v \<and> is_ruku_start a)"
    show "\<exists>r. getNearestRukuBoundary ayahs v Backward = Some r \<and> r \<in> set ayahs \<and>
             (\<forall>a\<in>set ayahs. global_order r \<le> global_order a)"
      using backward_no_start[OF so assms(2) h] by blast
  qed
  have c7: "\<forall>xs. map global_order xs = [1, 2, 3, 4, 5, 6, 7, 8, 9, 10] \<and>
           map is_ruku_start xs
             = [True, False, False, True, False, False, False, True, False, False] \<longrightarrow>
        getNearestRukuBoundary xs (xs ! 4) Forward = Some (xs ! 6) \<and>
        getNearestRukuBoundary xs (xs ! 4) Backward = Some (xs ! 3)"
  proof (intro allI impI)
    fix xs :: "Ayah list"
    assume h: "map global_order xs = [1, 2, 3, 4, 5, 6, 7, 8, 9, 10] \<and>
           map is_ruku_start xs
             = [True, False, False, True, False, False, False, True, False, False]"
    show "getNearestRukuBoundary xs (xs ! 4) Forward = Some (xs ! 6) \<and>
        getNearestRukuBoundary xs (xs ! 4) Backward = Some (xs ! 3)"
      by (rule conjI example_scenario[OF conjunct1[OF h] conjunct2[OF h]])+
  qed
  show ?thesis
    by (rule c1 c2 c3 c4 c5 c6 c7 conjI)+
qed

text \<open>
  The theorem on the ten-verse index, from the verse of order 5.
\<close>

theorem C3_nearest_ruku_boundary_witness:
  "sorted_wrt (<) (map global_order ten_verses) \<and> ten_verses ! 4 \<in> set ten_verses \<and>
   map global_order ten_verses = [1..10] \<and>
   getNearestRukuBoundary ten_verses (ten_verses ! 4) Forward = Some (ten_verses ! 6) \<and>
   getNearestRukuBoundary ten_verses (ten_verses ! 4) Backward = Some (ten_verses ! 3)"
proof -
  have h: "sorted_wrt (<) (map global_order ten_verses)" "ten_verses ! 4 \<in> set ten_verses"
    by code_simp+
  have u: "map global_order ten_verses = [1..10]"
    by code_simp
  have n: "ten_verses ! 7 \<in> set ten_verses \<and> is_ruku_start (ten_verses ! 7) \<and>
      global_order (ten_verses ! 4) < global_order (ten_verses ! 7) \<and>
      (\<forall>m\<in>set ten_verses. is_ruku_start m \<and> global_order (ten_verses ! 4) < global_order m
          \<longrightarrow> global_order (ten_verses ! 7) \<le> global_order m)"
    by code_simp
  have p: "ten_verses ! 6 \<in> set ten_verses \<and>
      global_order (ten_verses ! 6) < global_order (ten_verses ! 7) \<and>
      (\<forall>a\<in>set ten_verses. global_order a < global_order (ten_verses ! 7)
          \<longrightarrow> global_order a \<le> global_order (ten_verses ! 6))"
    by code_simp
  have b: "ten_verses ! 3 \<in> set ten_verses \<and> is_ruku_start (ten_verses ! 3) \<and>
      global_order (ten_verses ! 3) < global_order (ten_verses ! 4) \<and>
      (\<forall>m\<in>set ten_verses. is_ruku_start m \<and> global_order m < global_order (ten_verses ! 4)
          \<longrightarrow> global_order m \<le> global_order (ten_verses ! 3))"
    by code_simp
  note r = C3_nearest_ruku_boundary[OF h]
  have "getNearestRukuBoundary ten_verses (ten_verses ! 4) Forward = Some (ten_verses ! 6)"
    using r n p u by blast
  moreover have "getNearestRukuBoundary ten_verses (ten_verses ! 4) Backward = Some (ten_verses ! 3)"
    using r b by blast
  ultimately show ?thesis
    using h u by blast
qed

subsection \<open>C4: Last verse of a ruku\<close>

text \<open>
  The claim as stated fails where the orders have a gap, which the data model allows: in the
  index with orders 1, 2, 4, 6, the first three verses in ruku 1 and the last in ruku 2, the
  last verse of ruku 1 has order 4, but the path through the start of ruku 2 looks for
  order 5 and returns nothing.
\<close>

theorem C4_last_of_ruku_missing:
  "map global_order gapped_verses = [1, 2, 4, 6] \<and>
   map ruku_global gapped_verses = [1, 1, 1, 2] \<and>
   map is_ruku_start gapped_verses = [True, False, False, True] \<and>
   getFirstAyahOfRuku gapped_verses 2 = Some (gapped_verses ! 3) \<and>
   getPrevAyah gapped_verses (gapped_verses ! 3) = None \<and>
   getLastAyahOfRuku gapped_verses 1 = None"
  by code_simp

text \<open>
  Claim C4, as amended.  Let the index be strictly ascending in \<open>global_order\<close> and \<open>m\<close> the
  verse of greatest \<open>global_order\<close> in ruku \<open>s\<close>.  When no verse of ruku \<open>s + 1\<close> starts a
  ruku, in particular when there is no ruku \<open>s + 1\<close>, as for the final ruku,
  \<open>getLastAyahOfRuku\<close> returns \<open>m\<close>, gaps in the orders or not.  When the start \<open>n\<close> of ruku
  \<open>s + 1\<close> is found, the result is the verse before \<open>n\<close> as \<open>getPrevAyah\<close> computes it, and
  nothing when the index has no verse whose order is one less than that of \<open>n\<close>.  If
  moreover \<open>ruku_global\<close> does not decrease along the index and \<open>is_ruku_start\<close> holds exactly
  of the first verse of each ruku, then the start of an existing ruku \<open>s + 1\<close> is found, and
  the verse before it, hence the result, is \<open>m\<close> whenever the index has a verse whose order is
  one less than that of \<open>n\<close>; so for orders that are the consecutive integers \<open>lo, \<dots>, hi\<close>
  the result is \<open>m\<close> whichever path computes it.
\<close>

theorem C4_last_ayah_of_ruku:
  assumes index: "sorted_wrt (<) (map global_order ayahs)"
    and m: "m \<in> set ayahs" "ruku_global m = s"
      "\<forall>b\<in>set ayahs. ruku_global b = s \<longrightarrow> global_order b \<le> global_order m"
  shows
    "((\<forall>a\<in>set ayahs. \<not> (ruku_global a = s + 1 \<and> is_ruku_start a)) \<longrightarrow>
        getLastAyahOfRuku ayahs s = Some m) \<and>
     (\<forall>n. getFirstAyahOfRuku ayahs (s + 1) = Some n \<longrightarrow>
        getLastAyahOfRuku ayahs s = getPrevAyah ayahs n \<and>
        ((\<forall>p\<in>set ayahs. global_order p \<noteq> global_order n - 1) \<longrightarrow>
           getLastAyahOfRuku ayahs s = None)) \<and>
     (sorted (map ruku_global ayahs) \<and>
      (\<forall>a\<in>set ayahs. is_ruku_start a \<longleftrightarrow>
        (\<forall>b\<in>set ayahs. ruku_global b = ruku_global a \<longrightarrow> global_order a \<le> global_order b)) \<longrightarrow>
        ((\<exists>b\<in>set ayahs. ruku_global b = s + 1) \<longrightarrow>
           (\<exists>n. getFirstAyahOfRuku ayahs (s + 1) = Some n)) \<and>
        (\<forall>n. getFirstAyahOfRuku ayahs (s + 1) = Some n \<and>
             (\<exists>p\<in>set ayahs. global_order p = global_order n - 1) \<longrightarrow>
           getPrevAyah ayahs n = Some m \<and> getLastAyahOfRuku ayahs s = Some m) \<and>
        (\<forall>lo hi. map global_order ayahs = [lo..hi] \<longrightarrow>
           getLastAyahOfRuku ayahs s = Some m \<and>
           ((\<exists>b\<in>set ayahs. ruku_global b = s + 1) \<longrightarrow>
              (\<exists>n. getFirstAyahOfRuku ayahs (s + 1) = Some n \<and>
                   getPrevAyah ayahs n = Some m))))"
proof -
  have so: "sorted (map global_order ayahs)" and di: "distinct (map global_order ayahs)"
    using index by (simp_all add: strict_sorted_iff)
  have c1: "(\<forall>a\<in>set ayahs. \<not> (ruku_global a = s + 1 \<and> is_ruku_start a)) \<longrightarrow>
        getLastAyahOfRuku ayahs s = Some m"
    using last_of_ruku_no_start[OF index m] by blast
  have c2: "\<forall>n. getFirstAyahOfRuku ayahs (s + 1) = Some n \<longrightarrow>
        getLastAyahOfRuku ayahs s = getPrevAyah ayahs n \<and>
        ((\<forall>p\<in>set ayahs. global_order p \<noteq> global_order n - 1) \<longrightarrow>
           getLastAyahOfRuku ayahs s = None)"
  proof (intro allI impI conjI)
    fix n assume f: "getFirstAyahOfRuku ayahs (s + 1) = Some n"
    then show "getLastAyahOfRuku ayahs s = getPrevAyah ayahs n"
      by (rule last_of_ruku_via_start)
    assume "\<forall>p\<in>set ayahs. global_order p \<noteq> global_order n - 1"
    then have "getPrevAyah ayahs n = None"
      by (simp add: getPrevAyah_None)
    then show "getLastAyahOfRuku ayahs s = None"
      using last_of_ruku_via_start[OF f] by simp
  qed
  have c3: "((\<exists>b\<in>set ayahs. ruku_global b = s + 1) \<longrightarrow>
           (\<exists>n. getFirstAyahOfRuku ayahs (s + 1) = Some n)) \<and>
        (\<forall>n. getFirstAyahOfRuku ayahs (s + 1) = Some n \<and>
             (\<exists>p\<in>set ayahs. global_order p = global_order n - 1) \<longrightarrow>
           getPrevAyah ayahs n = Some m \<and> getLastAyahOfRuku ayahs s = Some m) \<and>
        (\<forall>lo hi. map global_order ayahs = [lo..hi] \<longrightarrow>
           getLastAyahOfRuku ayahs s = Some m \<and>
           ((\<exists>b\<in>set ayahs. ruku_global b = s + 1) \<longrightarrow>
              (\<exists>n. getFirstAyahOfRuku ayahs (s + 1) = Some n \<and>
                   getPrevAyah ayahs n = Some m)))"
    if rukus: "sorted (map ruku_global ayahs)"
      and starts: "\<forall>a\<in>set ayahs. is_ruku_start a \<longleftrightarrow>
        (\<forall>b\<in>set ayahs. ruku_global b = ruku_global a \<longrightarrow> global_order a \<le> global_order b)"
  proof -
    have found: "\<exists>n. getFirstAyahOfRuku ayahs (s + 1) = Some n"
      if "\<exists>b\<in>set ayahs. ruku_global b = s + 1"
    proof -
      from that obtain b where "b \<in> set ayahs" "ruku_global b = s + 1"
        by blast
      from first_of_ruku_found[OF so di starts this] show ?thesis
        by (simp add: getFirstAyahOfRuku_def)
    qed
    have first: "n \<in> set ayahs \<and> ruku_global n = s + 1 \<and>
        (\<forall>b\<in>set ayahs. ruku_global b = s + 1 \<longrightarrow> global_order n \<le> global_order b)"
      if "getFirstAyahOfRuku ayahs (s + 1) = Some n" for n
    proof -
      from that have "List.find (\<lambda>a. ruku_global a = s + 1 \<and> is_ruku_start a) ayahs = Some n"
        by (simp add: getFirstAyahOfRuku_def)
      from find_SomeD[OF this] have n: "n \<in> set ayahs" "ruku_global n = s + 1" "is_ruku_start n"
        by simp_all
      with starts have "\<forall>b\<in>set ayahs. ruku_global b = s + 1 \<longrightarrow> global_order n \<le> global_order b"
        by metis
      with n show ?thesis by blast
    qed
    have local: "getPrevAyah ayahs n = Some m \<and> getLastAyahOfRuku ayahs s = Some m"
      if f: "getFirstAyahOfRuku ayahs (s + 1) = Some n"
        and p: "\<exists>p\<in>set ayahs. global_order p = global_order n - 1" for n
    proof -
      from p obtain p where p: "p \<in> set ayahs" "global_order p = global_order n - 1"
        by blast
      from first[OF f] have n: "n \<in> set ayahs" "ruku_global n = s + 1"
        "\<forall>b\<in>set ayahs. ruku_global b = s + 1 \<longrightarrow> global_order n \<le> global_order b"
        by blast+
      have "getPrevAyah ayahs n = Some m"
        by (rule prev_of_next_start_at[OF index rukus m n p])
      then show ?thesis
        using last_of_ruku_via_start[OF f] by simp
    qed
    have consecutive: "getLastAyahOfRuku ayahs s = Some m \<and>
           ((\<exists>b\<in>set ayahs. ruku_global b = s + 1) \<longrightarrow>
              (\<exists>n. getFirstAyahOfRuku ayahs (s + 1) = Some n \<and>
                   getPrevAyah ayahs n = Some m))"
      if o: "map global_order ayahs = [lo..hi]" for lo hi
    proof -
      have prev: "getPrevAyah ayahs n = Some m"
        if f: "getFirstAyahOfRuku ayahs (s + 1) = Some n" for n
      proof -
        from first[OF f] have n: "n \<in> set ayahs" "ruku_global n = s + 1"
          "\<forall>b\<in>set ayahs. ruku_global b = s + 1 \<longrightarrow> global_order n \<le> global_order b"
          by blast+
        show ?thesis
          by (rule prev_of_next_start[OF o rukus m n])
      qed
      have "getLastAyahOfRuku ayahs s = Some m"
      proof (cases "getFirstAyahOfRuku ayahs (s + 1)")
        case None
        then have "\<forall>a\<in>set ayahs. \<not> (ruku_global a = s + 1 \<and> is_ruku_start a)"
          by (simp add: getFirstAyahOfRuku_def find_None_iff)
        then show ?thesis
          by (rule last_of_ruku_no_start[OF index m])
      next
        case (Some n)
        then show ?thesis
          using prev[OF Some] last_of_ruku_via_start[OF Some] by simp
      qed
      moreover have "\<exists>n. getFirstAyahOfRuku ayahs (s + 1) = Some n \<and> getPrevAyah ayahs n = Some m"
        if "\<exists>b\<in>set ayahs. ruku_global b = s + 1"
        using found[OF that] prev by blast
      ultimately show ?thesis by blast
    qed
    from found local consecutive show ?thesis
      by blast
  qed
  from c1 c2 c3 show ?thesis
    by blast
qed

text \<open>
  The theorem on the final ruku of the index with gaps, and on the ten-verse index: ruku 2,
  followed by ruku 3, and the final ruku 3.
\<close>

theorem C4_last_ayah_of_ruku_witness:
  "sorted_wrt (<) (map global_order gapped_verses) \<and>
   gapped_verses ! 3 \<in> set gapped_verses \<and> ruku_global (gapped_verses ! 3) = 2 \<and>
   list_all (\<lambda>b. ruku_global b = 2 \<longrightarrow> global_order b \<le> global_order (gapped_verses ! 3))
     gapped_verses \<and>
   list_all (\<lambda>a. \<not> (ruku_global a = 2 + 1 \<and> is_ruku_start a)) gapped_verses \<and>
   getLastAyahOfRuku gapped_verses 2 = Some (gapped_verses ! 3) \<and>
   map global_order ten_verses = [1..10] \<and> sorted (map ruku_global ten_verses) \<and>
   list_all (\<lambda>a. is_ruku_start a \<longleftrightarrow>
        list_all (\<lambda>b. ruku_global b = ruku_global a \<longrightarrow> global_order a \<le> global_order b)
          ten_verses) ten_verses \<and>
   ten_verses ! 6 \<in> set ten_verses \<and> ruku_global (ten_verses ! 6) = 2 \<and>
   list_all (\<lambda>b. ruku_global b = 2 \<longrightarrow> global_order b \<le> global_order (ten_verses ! 6))
     ten_verses \<and>
   ten_verses ! 9 \<in> set ten_verses \<and> ruku_global (ten_verses ! 9) = 3 \<and>
   list_all (\<lambda>b. ruku_global b = 3 \<longrightarrow> global_order b \<le> global_order (ten_verses ! 9))
     ten_verses \<and>
   list_all (\<lambda>a. \<not> (ruku_global a = 3 + 1 \<and> is_ruku_start a)) ten_verses \<and>
   getLastAyahOfRuku ten_verses 2 = Some (ten_verses ! 6) \<and>
   getLastAyahOfRuku ten_verses 3 = Some (ten_verses ! 9) \<and>
   (\<exists>n. getFirstAyahOfRuku ten_verses (2 + 1) = Some n \<and>
        getPrevAyah ten_verses n = Some (ten_verses ! 6))"
proof -
  have g: "sorted_wrt (<) (map global_order gapped_verses)"
    by code_simp
  have gm: "gapped_verses ! 3 \<in> set gapped_verses" "ruku_global (gapped_verses ! 3) = 2"
    "\<forall>b\<in>set gapped_verses. ruku_global b = 2
        \<longrightarrow> global_order b \<le> global_order (gapped_verses ! 3)"
    by code_simp+
  have gf: "\<forall>a\<in>set gapped_verses. \<not> (ruku_global a = 2 + 1 \<and> is_ruku_start a)"
    by code_simp
  have t: "sorted_wrt (<) (map global_order ten_verses)"
    by code_simp
  have h: "map global_order ten_verses = [1..10]" "sorted (map ruku_global ten_verses)"
    "\<forall>a\<in>set ten_verses. is_ruku_start a \<longleftrightarrow>
        (\<forall>b\<in>set ten_verses. ruku_global b = ruku_global a \<longrightarrow> global_order a \<le> global_order b)"
    by code_simp+
  have m2: "ten_verses ! 6 \<in> set ten_verses" "ruku_global (ten_verses ! 6) = 2"
    "\<forall>b\<in>set ten_verses. ruku_global b = 2 \<longrightarrow> global_order b \<le> global_order (ten_verses ! 6)"
    by code_simp+
  have m3: "ten_verses ! 9 \<in> set ten_verses" "ruku_global (ten_verses ! 9) = 3"
    "\<forall>b\<in>set ten_verses. ruku_global b = 3 \<longrightarrow> global_order b \<le> global_order (ten_verses ! 9)"
    by code_simp+
  have tf: "\<forall>a\<in>set ten_verses. \<not> (ruku_global a = 3 + 1 \<and> is_ruku_start a)"
    by code_simp
  have e: "\<exists>b\<in>set ten_verses. ruku_global b = 2 + 1"
    by code_simp
  have rg: "getLastAyahOfRuku gapped_verses 2 = Some (gapped_verses ! 3)"
    using C4_last_ayah_of_ruku[OF g gm] gf by blast
  have r2: "getLastAyahOfRuku ten_verses 2 = Some (ten_verses ! 6)"
    "\<exists>n. getFirstAyahOfRuku ten_verses (2 + 1) = Some n \<and>
        getPrevAyah ten_verses n = Some (ten_verses ! 6)"
    using C4_last_ayah_of_ruku[OF t m2] h e by blast+
  have r3: "getLastAyahOfRuku ten_verses 3 = Some (ten_verses ! 9)"
    using C4_last_ayah_of_ruku[OF t m3] tf by blast
  show ?thesis
    unfolding list_all_iff using g gm gf h m2 m3 tf rg r2 r3 by blast
qed

subsection \<open>C5: Verse span\<close>

text \<open>
  Claim C5. Let the index be sorted ascending by \<open>global_order\<close>.  If no verse has the
  start key, or none has the end key, \<open>get_ayahs_between_verse_keys\<close> returns the empty
  sequence.  Otherwise, with \<open>s\<close> and \<open>e\<close> the verses located by the two keys (the first
  verse of the index carrying the key; the only one when keys are unique), the result is
  empty when the order of \<open>s\<close> exceeds that of \<open>e\<close>, and otherwise it is exactly the
  index filtered to the orders from that of \<open>s\<close> to that of \<open>e\<close> inclusive.  The result
  is always ascending in \<open>global_order\<close>.
\<close>

theorem C5_between_verse_keys_span:
  assumes "sorted (map global_order ayahs)"
  shows "(startKey \<notin> verse_key ` set ayahs \<or> endKey \<notin> verse_key ` set ayahs \<longrightarrow>
           get_ayahs_between_verse_keys ayahs startKey endKey = []) \<and>
         (\<forall>s e. List.find (\<lambda>a. verse_key a = startKey) ayahs = Some s \<and>
                List.find (\<lambda>a. verse_key a = endKey) ayahs = Some e \<longrightarrow>
            (global_order s > global_order e \<longrightarrow>
               get_ayahs_between_verse_keys ayahs startKey endKey = []) \<and>
            (global_order s \<le> global_order e \<longrightarrow>
               get_ayahs_between_verse_keys ayahs startKey endKey
                 = filter (\<lambda>a. global_order s \<le> global_order a
                                 \<and> global_order a \<le> global_order e) ayahs)) \<and>
         (distinct (map verse_key ayahs) \<longrightarrow>
            (\<forall>s e. s \<in> set ayahs \<and> verse_key s = startKey \<and>
                   e \<in> set ayahs \<and> verse_key e = endKey \<longrightarrow>
               (global_order s > global_order e \<longrightarrow>
                  get_ayahs_between_verse_keys ayahs startKey endKey = []) \<and>
               (global_order s \<le> global_order e \<longrightarrow>
                  get_ayahs_between_verse_keys ayahs startKey endKey
                    = filter (\<lambda>a. global_order s \<le> global_order a
                                    \<and> global_order a \<le> global_order e) ayahs))) \<and>
         sorted (map global_order (get_ayahs_between_verse_keys ayahs startKey endKey))"
proof -
  let ?R = "get_ayahs_between_verse_keys ayahs startKey endKey"
  have c1: "startKey \<notin> verse_key ` set ayahs \<or> endKey \<notin> verse_key ` set ayahs \<longrightarrow> ?R = []"
  proof
    assume "startKey \<notin> verse_key ` set ayahs \<or> endKey \<notin> verse_key ` set ayahs"
    then have "List.find (\<lambda>a. verse_key a = startKey) ayahs = None
             \<or> List.find (\<lambda>a. verse_key a = endKey) ayahs = None"
      by (auto simp: find_None_iff)
    then show "?R = []"
      by (auto simp: get_ayahs_between_verse_keys_def split: option.splits)
  qed
  have c2: "\<forall>s e. List.find (\<lambda>a. verse_key a = startKey) ayahs = Some s \<and>
                List.find (\<lambda>a. verse_key a = endKey) ayahs = Some e \<longrightarrow>
            (global_order s > global_order e \<longrightarrow> ?R = []) \<and>
            (global_order s \<le> global_order e \<longrightarrow>
               ?R = filter (\<lambda>a. global_order s \<le> global_order a
                                 \<and> global_order a \<le> global_order e) ayahs)"
    by (simp add: between_verse_keys_found)
  have c3: "distinct (map verse_key ayahs) \<longrightarrow>
            (\<forall>s e. s \<in> set ayahs \<and> verse_key s = startKey \<and>
                   e \<in> set ayahs \<and> verse_key e = endKey \<longrightarrow>
               (global_order s > global_order e \<longrightarrow> ?R = []) \<and>
               (global_order s \<le> global_order e \<longrightarrow>
                  ?R = filter (\<lambda>a. global_order s \<le> global_order a
                                    \<and> global_order a \<le> global_order e) ayahs))"
  proof (intro impI allI)
    fix s e
    assume d: "distinct (map verse_key ayahs)"
      and h: "s \<in> set ayahs \<and> verse_key s = startKey \<and> e \<in> set ayahs \<and> verse_key e = endKey"
    have "List.find (\<lambda>a. verse_key a = startKey) ayahs = Some s"
      "List.find (\<lambda>a. verse_key a = endKey) ayahs = Some e"
      using h by (simp_all add: find_by_key[OF d])
    then show "(global_order s > global_order e \<longrightarrow> ?R = []) \<and>
               (global_order s \<le> global_order e \<longrightarrow>
                  ?R = filter (\<lambda>a. global_order s \<le> global_order a
                                    \<and> global_order a \<le> global_order e) ayahs)"
      by (simp add: between_verse_keys_found)
  qed
  have c4: "sorted (map global_order ?R)"
    using assms by (auto simp: get_ayahs_between_verse_keys_def sorted_filter split: option.splits)
  show ?thesis
    by (rule c1 c2 c3 c4 conjI)+
qed

text \<open>
  On the ten-verse index: an absent key, an inverted span and a proper span.
\<close>

theorem C5_between_verse_keys_span_witness:
  "sorted (map global_order ten_verses) \<and>
   ''9:9'' \<notin> verse_key ` set ten_verses \<and>
   get_ayahs_between_verse_keys ten_verses ''1:2'' ''9:9'' = [] \<and>
   get_ayahs_between_verse_keys ten_verses ''2:1'' ''1:1'' = [] \<and>
   map global_order (get_ayahs_between_verse_keys ten_verses ''1:2'' ''1:5'') = [2, 3, 4, 5]"
proof -
  have h: "sorted (map global_order ten_verses)"
    by code_simp
  have k: "''9:9'' \<notin> verse_key ` set ten_verses"
    by code_simp
  have f: "List.find (\<lambda>a. verse_key a = ''1:1'') ten_verses = Some (ten_verses ! 0)"
    "List.find (\<lambda>a. verse_key a = ''1:2'') ten_verses = Some (ten_verses ! 1)"
    "List.find (\<lambda>a. verse_key a = ''1:5'') ten_verses = Some (ten_verses ! 4)"
    "List.find (\<lambda>a. verse_key a = ''2:1'') ten_verses = Some (ten_verses ! 7)"
    by code_simp+
  have o: "global_order (ten_verses ! 7) > global_order (ten_verses ! 0)"
    "global_order (ten_verses ! 1) \<le> global_order (ten_verses ! 4)"
    by code_simp+
  have v: "map global_order (filter (\<lambda>a. global_order (ten_verses ! 1) \<le> global_order a
      \<and> global_order a \<le> global_order (ten_verses ! 4)) ten_verses) = [2, 3, 4, 5]"
    by code_simp
  have "get_ayahs_between_verse_keys ten_verses ''1:2'' ''9:9'' = []"
    using C5_between_verse_keys_span[OF h, where startKey="''1:2''" and endKey="''9:9''"] k by blast
  moreover have "get_ayahs_between_verse_keys ten_verses ''2:1'' ''1:1'' = []"
    using C5_between_verse_keys_span[OF h, where startKey="''2:1''" and endKey="''1:1''"] f o by blast
  moreover have "get_ayahs_between_verse_keys ten_verses ''1:2'' ''1:5''
      = filter (\<lambda>a. global_order (ten_verses ! 1) \<le> global_order a
          \<and> global_order a \<le> global_order (ten_verses ! 4)) ten_verses"
    using C5_between_verse_keys_span[OF h, where startKey="''1:2''" and endKey="''1:5''"] f o by blast
  ultimately show ?thesis
    using h k v by simp
qed

subsection \<open>C6: Next and previous verse\<close>

text \<open>
  The claim as stated fails where the orders have a gap, which the data model allows: in the
  index with orders 1, 2, 4, 6 the verse of order 2 is not the last and has no next verse,
  and the verse of order 4 is not the first and has no previous verse.
\<close>

theorem C6_next_none_not_last:
  "sorted_wrt (<) (map global_order gapped_verses) \<and>
   gapped_verses ! 1 \<in> set gapped_verses \<and>
   gapped_verses ! 2 \<in> set gapped_verses \<and>
   global_order (gapped_verses ! 1) < global_order (gapped_verses ! 2) \<and>
   getNextAyah gapped_verses (gapped_verses ! 1) = None \<and>
   getPrevAyah gapped_verses (gapped_verses ! 2) = None"
  by code_simp

text \<open>
  Claim C6, as amended.  \<open>getNextAyah\<close> returns a verse of the index whose order is one
  more than that of \<open>v\<close>, the only such verse when orders are unique, and it returns nothing
  exactly when the index has no verse of that order; so it returns nothing at the last
  verse.  When the orders of the index are the consecutive integers \<open>lo, \<dots>, hi\<close>, it
  returns nothing if and only if \<open>v\<close> is the last verse.  \<open>getPrevAyah\<close> is symmetric, with
  one less and the first verse.
\<close>

theorem C6_next_prev_ayah:
  "(\<forall>r. getNextAyah ayahs v = Some r \<longrightarrow> r \<in> set ayahs \<and> global_order r = global_order v + 1) \<and>
   (getNextAyah ayahs v = None \<longleftrightarrow> (\<forall>a\<in>set ayahs. global_order a \<noteq> global_order v + 1)) \<and>
   (distinct (map global_order ayahs) \<longrightarrow>
      (\<forall>p\<in>set ayahs. global_order p = global_order v + 1 \<longrightarrow> getNextAyah ayahs v = Some p)) \<and>
   ((\<forall>a\<in>set ayahs. global_order a \<le> global_order v) \<longrightarrow> getNextAyah ayahs v = None) \<and>
   (\<forall>r. getPrevAyah ayahs v = Some r \<longrightarrow> r \<in> set ayahs \<and> global_order r = global_order v - 1) \<and>
   (getPrevAyah ayahs v = None \<longleftrightarrow> (\<forall>a\<in>set ayahs. global_order a \<noteq> global_order v - 1)) \<and>
   (distinct (map global_order ayahs) \<longrightarrow>
      (\<forall>p\<in>set ayahs. global_order p = global_order v - 1 \<longrightarrow> getPrevAyah ayahs v = Some p)) \<and>
   ((\<forall>a\<in>set ayahs. global_order v \<le> global_order a) \<longrightarrow> getPrevAyah ayahs v = None) \<and>
   (map global_order ayahs = [lo..hi] \<and> v \<in> set ayahs \<longrightarrow>
      (getNextAyah ayahs v = None \<longleftrightarrow> (\<forall>a\<in>set ayahs. global_order a \<le> global_order v)) \<and>
      (getPrevAyah ayahs v = None \<longleftrightarrow> (\<forall>a\<in>set ayahs. global_order v \<le> global_order a)))"
proof (intro conjI allI impI ballI)
  show "getNextAyah ayahs v = Some p"
    if "distinct (map global_order ayahs)" "p \<in> set ayahs" "global_order p = global_order v + 1"
    for p
    using that by (rule getNextAyah_unique)
  show "getPrevAyah ayahs v = Some p"
    if "distinct (map global_order ayahs)" "p \<in> set ayahs" "global_order p = global_order v - 1"
    for p
    using that by (rule getPrevAyah_unique)
  show "getNextAyah ayahs v = None" if "\<forall>a\<in>set ayahs. global_order a \<le> global_order v"
    using that by (force simp: getNextAyah_None)
  show "getPrevAyah ayahs v = None" if "\<forall>a\<in>set ayahs. global_order v \<le> global_order a"
    using that by (force simp: getPrevAyah_None)
  show "getNextAyah ayahs v = None \<longleftrightarrow> (\<forall>a\<in>set ayahs. global_order a \<le> global_order v)"
    if "map global_order ayahs = [lo..hi] \<and> v \<in> set ayahs"
    using that next_None_iff_last by blast
  show "getPrevAyah ayahs v = None \<longleftrightarrow> (\<forall>a\<in>set ayahs. global_order v \<le> global_order a)"
    if "map global_order ayahs = [lo..hi] \<and> v \<in> set ayahs"
    using that prev_None_iff_first by blast
qed (simp_all add: getNextAyah_Some getPrevAyah_Some getNextAyah_None getPrevAyah_None)

text \<open>
  The theorem on the ten-verse index, at its last, first and fifth verse.
\<close>

theorem C6_next_prev_ayah_witness:
  "map global_order ten_verses = [1..10] \<and> ten_verses ! 9 \<in> set ten_verses \<and>
   ten_verses ! 0 \<in> set ten_verses \<and>
   list_all (\<lambda>a. global_order a \<le> global_order (ten_verses ! 9)) ten_verses \<and>
   list_all (\<lambda>a. global_order (ten_verses ! 0) \<le> global_order a) ten_verses \<and>
   getNextAyah ten_verses (ten_verses ! 9) = None \<and>
   getPrevAyah ten_verses (ten_verses ! 0) = None \<and>
   getNextAyah ten_verses (ten_verses ! 4) = Some (ten_verses ! 5) \<and>
   global_order (ten_verses ! 5) = global_order (ten_verses ! 4) + 1"
proof -
  have h: "map global_order ten_verses = [1..10]"
    by code_simp
  have m: "ten_verses ! 9 \<in> set ten_verses" "ten_verses ! 0 \<in> set ten_verses"
    by code_simp+
  have l: "\<forall>a\<in>set ten_verses. global_order a \<le> global_order (ten_verses ! 9)"
    by code_simp
  have f: "\<forall>a\<in>set ten_verses. global_order (ten_verses ! 0) \<le> global_order a"
    by code_simp
  have n: "getNextAyah ten_verses (ten_verses ! 4) = Some (ten_verses ! 5)"
    by code_simp
  have "getNextAyah ten_verses (ten_verses ! 9) = None"
    using C6_next_prev_ayah[of ten_verses "ten_verses ! 9" 1 10] h m(1) l by blast
  moreover have "getPrevAyah ten_verses (ten_verses ! 0) = None"
    using C6_next_prev_ayah[of ten_verses "ten_verses ! 0" 1 10] h m(2) f by blast
  moreover have "global_order (ten_verses ! 5) = global_order (ten_verses ! 4) + 1"
    using C6_next_prev_ayah[of ten_verses "ten_verses ! 4" 1 10] n by blast
  ultimately show ?thesis
    unfolding list_all_iff using h m l f n by blast
qed

subsection \<open>C7: Pool builder: duplication and order of descriptors\<close>

text \<open>
  Claim C7. Duplicating the descriptor list never changes the pool.  In a verse index
  \<open>verse_key\<close> and \<open>global_order\<close> are unique (data model, section 3 of the specification);
  for every such index the pool is the same for every permutation of the descriptor list.
\<close>

theorem C7_pool_idempotent:
  "buildTestPool ayahs (d1 @ d1) = buildTestPool ayahs d1 \<and>
   (distinct (map verse_key ayahs) \<and> distinct (map global_order ayahs) \<longrightarrow>
      (\<forall>d1'. mset d1' = mset d1 \<longrightarrow> buildTestPool ayahs d1' = buildTestPool ayahs d1))"
proof (intro conjI impI allI)
  show "buildTestPool ayahs (d1 @ d1) = buildTestPool ayahs d1"
    by (rule buildTestPool_twice)
next
  fix d1'
  assume "distinct (map verse_key ayahs) \<and> distinct (map global_order ayahs)"
    and "mset d1' = mset d1"
  then show "buildTestPool ayahs d1' = buildTestPool ayahs d1"
    by (intro buildTestPool_set_determined) (auto dest: mset_eq_setD)
qed

text \<open>
  The theorem on the ten-verse index, for two descriptors in either order and repeated.
\<close>

theorem C7_pool_idempotent_witness:
  "distinct (map verse_key ten_verses) \<and> distinct (map global_order ten_verses) \<and>
   mset [RukuRange 1 2 1 2, JuzRange 2 2] = mset [JuzRange 2 2, RukuRange 1 2 1 2] \<and>
   buildTestPool ten_verses [RukuRange 1 2 1 2, JuzRange 2 2]
     = buildTestPool ten_verses [JuzRange 2 2, RukuRange 1 2 1 2] \<and>
   buildTestPool ten_verses ([JuzRange 2 2, RukuRange 1 2 1 2] @ [JuzRange 2 2, RukuRange 1 2 1 2])
     = buildTestPool ten_verses [JuzRange 2 2, RukuRange 1 2 1 2]"
proof -
  have h: "distinct (map verse_key ten_verses)" "distinct (map global_order ten_verses)"
    by code_simp+
  have p: "mset [RukuRange 1 2 1 2, JuzRange 2 2] = mset [JuzRange 2 2, RukuRange 1 2 1 2]"
    by (simp add: add_mset_commute)
  show ?thesis
    using h p C7_pool_idempotent[of ten_verses "[JuzRange 2 2, RukuRange 1 2 1 2]"]
    by blast
qed

subsection \<open>C8: Pool builder: union\<close>

text \<open>
  Claim C8. In a verse index \<open>verse_key\<close> is unique (data model, section 3 of the
  specification).  For every such index and all descriptor lists \<open>d1\<close> and \<open>d2\<close>, the
  verses of the pool of \<open>d1 @ d2\<close> are those of the pool of \<open>d1\<close> together with those of
  the pool of \<open>d2\<close>.
\<close>

theorem C8_pool_union:
  assumes "distinct (map verse_key ayahs)"
  shows "set (buildTestPool ayahs (d1 @ d2))
           = set (buildTestPool ayahs d1) \<union> set (buildTestPool ayahs d2)"
  using assms by (simp add: set_buildTestPool)

text \<open>
  The theorem on the ten-verse index.
\<close>

theorem C8_pool_union_witness:
  "distinct (map verse_key ten_verses) \<and>
   set (buildTestPool ten_verses ([JuzRange 2 2] @ [RukuRange 1 2 1 2]))
     = set (buildTestPool ten_verses [JuzRange 2 2])
       \<union> set (buildTestPool ten_verses [RukuRange 1 2 1 2])"
proof -
  have h: "distinct (map verse_key ten_verses)"
    by code_simp
  show ?thesis
    using h C8_pool_union[OF h, of "[JuzRange 2 2]" "[RukuRange 1 2 1 2]"]
    by blast
qed

text \<open>
  Uniqueness of \<open>verse_key\<close> is used here and for the permutations of C7: of two records
  that share a key the map keeps the one written last.
\<close>

lemma unique_key_needed:
  "buildTestPool clashing_verses ([JuzRange 1 1] @ [JuzRange 2 2]) = [clashing_verses ! 1] \<and>
   buildTestPool clashing_verses [JuzRange 1 1] = [clashing_verses ! 0] \<and>
   buildTestPool clashing_verses [JuzRange 2 2, JuzRange 1 1] = [clashing_verses ! 0] \<and>
   clashing_verses ! 0 \<noteq> clashing_verses ! 1"
  by code_simp

subsection \<open>C9: Juz span\<close>

text \<open>
  Claim C9. For every index and all integers \<open>startJuz\<close> and \<open>endJuz\<close>,
  \<open>get_ayahs_for_juz_range\<close> returns the empty sequence when \<open>startJuz > endJuz\<close>, and in
  every case exactly the verses of the index, in index order, whose \<open>juz_number\<close> lies
  between \<open>startJuz\<close> and \<open>endJuz\<close> inclusive.
\<close>

theorem C9_juz_range_exact:
  "(startJuz > endJuz \<longrightarrow> get_ayahs_for_juz_range ayahs startJuz endJuz = []) \<and>
   get_ayahs_for_juz_range ayahs startJuz endJuz
     = filter (\<lambda>a. startJuz \<le> juz_number a \<and> juz_number a \<le> endJuz) ayahs"
proof -
  have "filter (\<lambda>a. startJuz \<le> juz_number a \<and> juz_number a \<le> endJuz) ayahs = []"
    if "startJuz > endJuz"
    using that by (auto simp: filter_empty_conv)
  then show ?thesis
    by (auto simp: get_ayahs_for_juz_range_def)
qed

text \<open>
  On the ten-verse index: the inverted range 5 to 3, and juz 2.
\<close>

theorem C9_juz_range_exact_witness:
  "(5::int) > 3 \<and> get_ayahs_for_juz_range ten_verses 5 3 = [] \<and>
   map global_order (get_ayahs_for_juz_range ten_verses 2 2) = [8, 9, 10]"
proof -
  have "get_ayahs_for_juz_range ten_verses 5 3 = []"
    using C9_juz_range_exact[where startJuz=5 and endJuz=3 and ayahs=ten_verses] by simp
  moreover have "map global_order (filter (\<lambda>a. 2 \<le> juz_number a \<and> juz_number a \<le> 2) ten_verses)
      = [8, 9, 10]"
    by code_simp
  ultimately show ?thesis
    using C9_juz_range_exact[where startJuz=2 and endJuz=2 and ayahs=ten_verses] by simp
qed

subsection \<open>C10: The pool lies within the index\<close>

text \<open>
  Claim C10. Every verse in the output of \<open>buildTestPool\<close>, and in the output of each of
  the three resolvers, is an element of the index it was given.
\<close>

theorem C10_pool_within_index:
  "set (buildTestPool ayahs ranges) \<subseteq> set ayahs \<and>
   set (get_ayahs_between_verse_keys ayahs startKey endKey) \<subseteq> set ayahs \<and>
   set (get_ayahs_between_rukus ayahs startJuz startRuku endJuz endRuku) \<subseteq> set ayahs \<and>
   set (get_ayahs_for_juz_range ayahs startJuz endJuz) \<subseteq> set ayahs"
  by (simp add: buildTestPool_subset between_verse_keys_subset between_rukus_subset
      juz_range_subset)

text \<open>
  The theorem on the ten-verse index.
\<close>

theorem C10_pool_within_index_witness:
  "set (buildTestPool ten_verses [JuzRange 2 2]) \<subseteq> set ten_verses"
  using C10_pool_within_index[of ten_verses "[JuzRange 2 2]"] by blast

end
